theory Spec2Isabelle
  imports Main "HOL-Library.Sublist"
begin

section \<open>Strings\<close>

text \<open>
  Go strings are byte sequences; they are modelled as \<^typ>\<open>string\<close>. The three
  functions of package \<open>strings\<close> that \<open>lookAtTag\<close> uses are written out, and
  \<open>strings.ToLower\<close> as it acts on ASCII text: the letters \<open>A\<close> to \<open>Z\<close> are lowered and
  every other byte is kept, so a field name with letters outside ASCII is not covered.
\<close>

fun Split :: "char \<Rightarrow> string \<Rightarrow> string list" where
  "Split c [] = [[]]"
| "Split c (x # xs) =
     (if x = c then [] # Split c xs
      else (case Split c xs of [] \<Rightarrow> [[x]] | w # ws \<Rightarrow> (x # w) # ws))"

definition TrimLeft :: "string \<Rightarrow> char \<Rightarrow> string" where
  "TrimLeft s c = dropWhile (\<lambda>x. x = c) s"

fun IndexByte :: "string \<Rightarrow> char \<Rightarrow> nat option" where
  "IndexByte [] c = None"
| "IndexByte (x # xs) c =
     (if x = c then Some 0 else map_option Suc (IndexByte xs c))"

definition lowerChar :: "char \<Rightarrow> char" where
  "lowerChar c =
     (if (65::nat) \<le> of_char c \<and> of_char c \<le> (90::nat)
      then char_of (of_char c + (32::nat)) else c)"

definition ToLower :: "string \<Rightarrow> string" where
  "ToLower s = map lowerChar s"

section \<open>Types and values of the destination\<close>

datatype stag = STag (tag_env: string) (tag_help: "string option") (tag_default: "string option")

text \<open>
  The part of \<open>reflect.Type\<close> the parser looks at. \<open>TCustom n vr u\<close> is a named type
  \<open>n\<close> with underlying type \<open>u\<close> that has an \<open>UnmarshalText\<close> method, on the value
  receiver when \<open>vr\<close> holds and on the pointer receiver otherwise. A struct field carries
  what \<open>reflect.StructField\<close> carries; its tag is kept as the three lookups the walker makes.
\<close>

datatype gtype =
    TBool | TInt | TString | TInterface
  | TPtr gtype
  | TSlice gtype
  | TStruct string "sfield list"
  | TCustom string bool gtype
and sfield =
    SField (Name: string) (PkgPath: string) (Type: gtype) (Tag: stag)
           (Index: "nat list") (Anonymous: bool)

datatype kind = KBool | KInt | KString | KInterface | KPtr | KSlice | KStruct

primrec Kind :: "gtype \<Rightarrow> kind" where
  "Kind TBool = KBool"
| "Kind TInt = KInt"
| "Kind TString = KString"
| "Kind TInterface = KInterface"
| "Kind (TPtr t) = KPtr"
| "Kind (TSlice t) = KSlice"
| "Kind (TStruct n fs) = KStruct"
| "Kind (TCustom n vr u) = Kind u"

text \<open>\<open>t.Elem()\<close> panics unless the kind is pointer or slice: \<open>None\<close> is the panic.\<close>

primrec Elem :: "gtype \<Rightarrow> gtype option" where
  "Elem TBool = None"
| "Elem TInt = None"
| "Elem TString = None"
| "Elem TInterface = None"
| "Elem (TPtr t) = Some t"
| "Elem (TSlice t) = Some t"
| "Elem (TStruct n fs) = None"
| "Elem (TCustom n vr u) = Elem u"

primrec TypeName :: "gtype \<Rightarrow> string" where
  "TypeName TBool = ''bool''"
| "TypeName TInt = ''int''"
| "TypeName TString = ''string''"
| "TypeName TInterface = ''''"
| "TypeName (TPtr t) = ''''"
| "TypeName (TSlice t) = ''''"
| "TypeName (TStruct n fs) = n"
| "TypeName (TCustom n vr u) = n"

primrec StructFields :: "gtype \<Rightarrow> sfield list" where
  "StructFields TBool = []"
| "StructFields TInt = []"
| "StructFields TString = []"
| "StructFields TInterface = []"
| "StructFields (TPtr t) = []"
| "StructFields (TSlice t) = []"
| "StructFields (TStruct n fs) = fs"
| "StructFields (TCustom n vr u) = StructFields u"

text \<open>\<open>t.Implements(textUnmarshalerType)\<close>: the method set of \<open>t\<close> has \<open>UnmarshalText\<close>.\<close>

fun Implements :: "gtype \<Rightarrow> bool" where
  "Implements (TCustom n vr u) = vr"
| "Implements (TPtr (TCustom n vr u)) = True"
| "Implements t = False"

datatype val =
    VBool bool | VInt int | VStr string | VIface
  | VPtr "val option"
  | VSlice "val list option"
  | VStruct "val list"

primrec zero :: "gtype \<Rightarrow> val" and zeroField :: "sfield \<Rightarrow> val" where
  "zero TBool = VBool False"
| "zero TInt = VInt 0"
| "zero TString = VStr []"
| "zero TInterface = VIface"
| "zero (TPtr t) = VPtr None"
| "zero (TSlice t) = VSlice None"
| "zero (TStruct n fs) = VStruct (map zeroField fs)"
| "zero (TCustom n vr u) = zero u"
| "zeroField (SField n p t tg ix a) = zero t"

primrec Comparable :: "gtype \<Rightarrow> bool" and ComparableField :: "sfield \<Rightarrow> bool" where
  "Comparable TBool = True"
| "Comparable TInt = True"
| "Comparable TString = True"
| "Comparable TInterface = True"
| "Comparable (TPtr t) = True"
| "Comparable (TSlice t) = False"
| "Comparable (TStruct n fs) = (\<forall>b \<in> set (map ComparableField fs). b)"
| "Comparable (TCustom n vr u) = Comparable u"
| "ComparableField (SField n p t tg ix a) = Comparable t"


section \<open>Errors\<close>

text \<open>
  The sentinel errors of the package, errors and panics raised by code outside it
  (\<open>External\<close>, \<open>Panic\<close>), and \<open>fmt.Errorf\<close> with a text followed by \<open>%w\<close> (\<open>Wrap\<close>).
\<close>

datatype error =
    ErrorFieldIsNotWritable
  | ErrorFieldIsRequired
  | ErrorNotPointers
  | ErrorNotStruct
  | ErrorRequiredWithDefault
  | ErrorUnrecognizedTag
  | ErrorFieldsAreNotSupported
  | ErrorDefaultValueForSlice
  | External string
  | Panic string
  | Wrap string error

primrec errorString :: "error \<Rightarrow> string" where
  "errorString ErrorFieldIsNotWritable = ''field is not writable''"
| "errorString ErrorFieldIsRequired = ''field is required''"
| "errorString ErrorNotPointers = ''must be pointers''"
| "errorString ErrorNotStruct = ''must be structs''"
| "errorString ErrorRequiredWithDefault =
     CHR 0x27 # ''required'' @ CHR 0x27 # '' cannot be used when a default value is specified''"
| "errorString ErrorUnrecognizedTag = ''unrecognized tag''"
| "errorString ErrorFieldsAreNotSupported = ''fields are not supported''"
| "errorString ErrorDefaultValueForSlice = ''default values are not supported for slice fields''"
| "errorString (External m) = m"
| "errorString (Panic m) = m"
| "errorString (Wrap m e) = m @ errorString e"

text \<open>\<open>errors.Is\<close> against a sentinel: the innermost wrapped error.\<close>

primrec cause :: "error \<Rightarrow> error" where
  "cause ErrorFieldIsNotWritable = ErrorFieldIsNotWritable"
| "cause ErrorFieldIsRequired = ErrorFieldIsRequired"
| "cause ErrorNotPointers = ErrorNotPointers"
| "cause ErrorNotStruct = ErrorNotStruct"
| "cause ErrorRequiredWithDefault = ErrorRequiredWithDefault"
| "cause ErrorUnrecognizedTag = ErrorUnrecognizedTag"
| "cause ErrorFieldsAreNotSupported = ErrorFieldsAreNotSupported"
| "cause ErrorDefaultValueForSlice = ErrorDefaultValueForSlice"
| "cause (External m) = External m"
| "cause (Panic m) = Panic m"
| "cause (Wrap m e) = cause e"

text \<open>
  \<open>fmt.Errorf\<close> around the error of a call: when the call panics there is no error to
  wrap, and the panic goes on.
\<close>

fun wrapf :: "string \<Rightarrow> error \<Rightarrow> error" where
  "wrapf m (Panic p) = Panic p"
| "wrapf m e = Wrap m e"

section \<open>Paths and specs\<close>

record path =
  root :: nat
  pfields :: "sfield list"

definition pathString :: "path \<Rightarrow> string" where
  "pathString p = foldl (\<lambda>s f. s @ ''.'' @ Name f) ''args'' (pfields p)"

text \<open>\<open>Child\<close> is only ever called with a field, never with \<open>nil\<close>.\<close>

definition Child :: "path \<Rightarrow> sfield \<Rightarrow> path" where
  "Child p f = \<lparr>root = root p, pfields = pfields p @ [f]\<rparr>"

record spec =
  dest :: path
  sp_typ :: gtype
  name :: string
  sp_help :: string
  defaultVal :: string
  multiple :: bool
  required :: bool
  boolean :: bool
  hasDefault :: bool

definition SetDefault :: "spec \<Rightarrow> string \<Rightarrow> spec" where
  "SetDefault s def = s\<lparr>defaultVal := def, hasDefault := True\<rparr>"

section \<open>Classification of field types\<close>

text \<open>
  Modelled from the spec: \<open>canParse\<close>, whose source file is not among the sources (only
  its call in \<open>walker\<close> and its tests are). A type exposing the custom textual-decode
  capability, itself or through its pointer, is a single opaque scalar whatever its shape;
  otherwise a boolean or optional boolean is boolean, a slice (or optional slice) whose
  element is convertible on its own is multi-value, any other primitive or optional
  primitive is scalar, and everything else is unsupported. As the tests of \<open>canParse\<close>
  have it, a slice of booleans is both boolean and multiple.
\<close>

fun exposesDecoder :: "gtype \<Rightarrow> bool" where
  "exposesDecoder (TCustom n vr u) = True"
| "exposesDecoder (TPtr (TCustom n vr u)) = True"
| "exposesDecoder t = False"

fun primitive :: "gtype \<Rightarrow> bool" where
  "primitive TBool = True"
| "primitive TInt = True"
| "primitive TString = True"
| "primitive t = False"

fun convertible :: "gtype \<Rightarrow> bool" where
  "convertible (TPtr t) = (exposesDecoder (TPtr t) \<or> primitive t)"
| "convertible t = (exposesDecoder t \<or> primitive t)"

fun isBoolean :: "gtype \<Rightarrow> bool" where
  "isBoolean TBool = True"
| "isBoolean (TPtr TBool) = True"
| "isBoolean t = False"

fun sliceElem :: "gtype \<Rightarrow> gtype option" where
  "sliceElem (TSlice e) = Some e"
| "sliceElem (TPtr (TSlice e)) = Some e"
| "sliceElem t = None"

definition canParse :: "gtype \<Rightarrow> bool \<times> bool \<times> bool" where
  "canParse t =
     (if exposesDecoder t then (True, False, False)
      else if convertible t then (True, isBoolean t, False)
      else (case sliceElem t of
              None \<Rightarrow> (False, False, False)
            | Some e \<Rightarrow>
                if convertible e then (True, isBoolean e, True)
                else (False, False, False)))"

section \<open>Building the schema\<close>

definition keyValue :: "string \<Rightarrow> string \<times> string" where
  "keyValue key =
     (case IndexByte key (CHR '':'') of
        None \<Rightarrow> (key, [])
      | Some pos \<Rightarrow> (take pos key, drop (Suc pos) key))"

text \<open>The loop of \<open>lookAtTag\<close> over the keys of the split tag.\<close>

fun lookAtKeys :: "string list \<Rightarrow> spec \<Rightarrow> error + spec" where
  "lookAtKeys [] sp = Inr sp"
| "lookAtKeys (k # ks) sp =
     (if k = [] then lookAtKeys ks sp
      else
        (let (key, value) = keyValue (TrimLeft k (CHR '' '')) in
         if key = ''name'' \<and> value \<noteq> [] then lookAtKeys ks (sp\<lparr>name := value\<rparr>)
         else if key = ''required'' then
           (if hasDefault sp then Inl ErrorRequiredWithDefault
            else lookAtKeys ks (sp\<lparr>required := True\<rparr>))
         else Inl (Wrap (key @ ''-'') ErrorUnrecognizedTag)))"

definition lookAtTag :: "string \<Rightarrow> spec \<Rightarrow> error + spec" where
  "lookAtTag tag sp = lookAtKeys (Split (CHR '','') tag) sp"

text \<open>
  \<open>reflect.Type.String\<close> for the message about an unsupported field. A named type prints
  as its bare name here; Go puts the package name and a dot before it.
\<close>

primrec typeString :: "gtype \<Rightarrow> string" where
  "typeString TBool = ''bool''"
| "typeString TInt = ''int''"
| "typeString TString = ''string''"
| "typeString TInterface = ''interface {}''"
| "typeString (TPtr t) = ''*'' @ typeString t"
| "typeString (TSlice t) = ''[]'' @ typeString t"
| "typeString (TStruct n fs) = n"
| "typeString (TCustom n vr u) = n"

primrec kindString :: "kind \<Rightarrow> string" where
  "kindString KBool = ''bool''"
| "kindString KInt = ''int''"
| "kindString KString = ''string''"
| "kindString KInterface = ''interface''"
| "kindString KPtr = ''ptr''"
| "kindString KSlice = ''slice''"
| "kindString KStruct = ''struct''"

text \<open>
  \<open>walker\<close> returns the spec (or \<open>nil\<close>), whether to expand the field, and the error.
  Its third argument is the name of the struct type that owns the field. \<open>newSpec\<close> is
  the spec as \<open>walker\<close> has it before it looks at the tag: the literal, the help text and
  the declared default.
\<close>

definition newSpec :: "path \<Rightarrow> sfield \<Rightarrow> spec" where
  "newSpec dst field =
     (let sp = \<lparr>dest = Child dst field, sp_typ = Type field, name = ToLower (Name field),
                sp_help = (case tag_help (Tag field) of None \<Rightarrow> [] | Some h \<Rightarrow> h),
                defaultVal = [], multiple = False, required = False, boolean = False,
                hasDefault = False\<rparr>
      in case tag_default (Tag field) of None \<Rightarrow> sp | Some d \<Rightarrow> SetDefault sp d)"

definition walker :: "path \<Rightarrow> sfield \<Rightarrow> string \<Rightarrow> spec option \<times> bool \<times> error option" where
  "walker dst field tname =
     (let tag = tag_env (Tag field) in
      if tag = ''-'' then (None, False, None)
      else if Anonymous field \<and> Kind (Type field) = KStruct then (None, True, None)
      else
        (case lookAtTag tag (newSpec dst field) of
              Inl err \<Rightarrow> (None, False, Some (Wrap (tname @ ''.'' @ Name field @ '': '') err))
            | Inr sp2 \<Rightarrow>
                (let (parseable, b, m) = canParse (Type field);
                     sp = sp2\<lparr>boolean := b, multiple := m\<rparr>
                 in if \<not> parseable then
                      (Some sp, False,
                       Some (Wrap (tname @ ''.'' @ Name field @ '': '' @ typeString (Type field) @ '' - '')
                               ErrorFieldsAreNotSupported))
                    else if multiple sp \<and> hasDefault sp then
                      (Some sp, False,
                       Some (Wrap (tname @ ''.'' @ Name field @ '': '') ErrorDefaultValueForSlice))
                    else (Some sp, False, None))))"

definition withIndex :: "sfield \<Rightarrow> nat list \<Rightarrow> sfield" where
  "withIndex f ix = SField (Name f) (PkgPath f) (Type f) (Tag f) ix (Anonymous f)"

text \<open>
  \<open>walkFieldsImpl\<close> with the visitor of \<open>specsFromStruct\<close> in place: the loop over the
  fields of \<open>t\<close> from index \<open>i\<close> on (\<open>fs\<close> are the fields not yet visited), collecting
  the specs in the order the visitor appends them.
\<close>

function walkFieldsImpl ::
  "path \<Rightarrow> gtype \<Rightarrow> nat list \<Rightarrow> nat \<Rightarrow> sfield list \<Rightarrow> error + spec list" where
  "walkFieldsImpl dst t p i [] = Inr []"
| "walkFieldsImpl dst t p i (f # fs) =
     (case walker dst (withIndex f (p @ [i])) (TypeName t) of
        (sp, expand, Some err) \<Rightarrow> Inl err
      | (sp, expand, None) \<Rightarrow>
          (case (if expand
                 then walkFieldsImpl dst (Type f) (if Anonymous f then p @ [i] else []) 0
                        (StructFields (Type f))
                 else Inr []) of
             Inl err \<Rightarrow> Inl err
           | Inr sub \<Rightarrow>
               (case walkFieldsImpl dst t p (Suc i) fs of
                  Inl err \<Rightarrow> Inl err
                | Inr rest \<Rightarrow> Inr ((case sp of None \<Rightarrow> [] | Some s \<Rightarrow> [s]) @ sub @ rest))))"
  by pat_completeness auto
termination
proof (relation "measure (\<lambda>(dst, t, p, i, fs). size_list size fs)")
  show "wf (measure (\<lambda>(dst, t, p, i, fs). size_list size fs))" by simp
next
  fix dst :: path and t :: gtype and p :: "nat list" and i :: nat and f :: sfield
    and fs :: "sfield list"
  have "size_list size (StructFields u) \<le> size u" for u :: gtype
    by (induction u) simp_all
  then have "size_list size (StructFields (Type f)) \<le> size (Type f)" .
  also have "\<dots> < size f" by (cases f) simp
  finally show "((dst, Type f, if Anonymous f then p @ [i] else [], 0, StructFields (Type f)),
                 dst, t, p, i, f # fs) \<in> measure (\<lambda>(dst, t, p, i, fs). size_list size fs)"
    by simp
next
  fix dst :: path and t :: gtype and p :: "nat list" and i :: nat and f :: sfield
    and fs :: "sfield list"
  show "((dst, t, p, Suc i, fs), dst, t, p, i, f # fs)
          \<in> measure (\<lambda>(dst, t, p, i, fs). size_list size fs)"
    by simp
qed

definition walkFields :: "path \<Rightarrow> gtype \<Rightarrow> error + spec list" where
  "walkFields dst t = walkFieldsImpl dst t [] 0 (StructFields t)"

definition specsFromStruct :: "path \<Rightarrow> gtype \<Rightarrow> error + spec list" where
  "specsFromStruct dst t =
     (if Kind t \<noteq> KPtr then
        Inl (Wrap (pathString dst @ '':'' @ kindString (Kind t) @ '' - '') ErrorNotPointers)
      else
        (case Elem t of
           None \<Rightarrow> Inl (Panic ''reflect: Elem of invalid type'')
         | Some t' \<Rightarrow>
             if Kind t' \<noteq> KStruct then
               Inl (Wrap (pathString dst @ '':'' @ kindString (Kind t') @ '' - '') ErrorNotStruct)
             else walkFields dst t'))"


section \<open>The destination and the code outside the package\<close>

text \<open>
  What the parser calls but does not contain is a parameter of the model:
  \<open>scalar.ParseValue\<close> (given the type, settability and current content of the value it
  writes to and the raw string, it leaves a content there and may return an error; the
  \<open>UnmarshalText\<close> methods of the destination's types are reached through it),
  \<open>csv.NewReader(...).Read\<close> (the first record or an error, together with the input the
  reader has not consumed), \<open>fmt.Sprintf("%v", v)\<close> and the \<open>MarshalText\<close> methods of the
  destination's types (\<open>None\<close> for a type without one).
\<close>

record ext =
  xParseValue :: "gtype \<Rightarrow> bool \<Rightarrow> val \<Rightarrow> string \<Rightarrow> val \<times> string option"
  xCsvRead :: "string \<Rightarrow> (string + string list) \<times> string"
  xSprint :: "gtype \<Rightarrow> val \<Rightarrow> string"
  xMarshalText :: "gtype \<Rightarrow> val \<Rightarrow> (string + string) option"

text \<open>
  The roots are pointers to structs, different roots to different structs. A root is nil
  or points to a struct whose leaf fields are addressed by the root's number and the index
  path of the field; every cell holds the field's type and content, as a \<open>reflect.Value\<close>
  does. Every path the walker builds has one step, whose \<open>Index\<close> is the whole index path
  from the root struct.
\<close>

record store =
  nilRoot :: "nat \<Rightarrow> bool"
  cells :: "nat \<times> nat list \<Rightarrow> gtype \<times> val"

definition loc :: "path \<Rightarrow> nat \<times> nat list" where
  "loc d = (root d, concat (map Index (pfields d)))"

text \<open>\<open>val\<close>: \<open>None\<close> is the zero \<open>reflect.Value\<close> returned below a nil pointer.\<close>

definition val :: "store \<Rightarrow> path \<Rightarrow> (gtype \<times> val) option" where
  "val st d =
     (if pfields d \<noteq> [] \<and> nilRoot st (root d) then None else Some (cells st (loc d)))"

text \<open>
  \<open>CanSet\<close>: the value is a field reached through a non-nil root, and the field is
  exported (its \<open>PkgPath\<close> is empty).
\<close>

definition CanSet :: "store \<Rightarrow> path \<Rightarrow> bool" where
  "CanSet st d =
     (val st d \<noteq> None \<and> pfields d \<noteq> [] \<and> PkgPath (last (pfields d)) = [])"

definition setCell :: "store \<Rightarrow> path \<Rightarrow> gtype \<times> val \<Rightarrow> store" where
  "setCell st d c = st\<lparr>cells := (cells st)(loc d := c)\<rparr>"

text \<open>
  A value obtained through an unexported field is read-only: \<open>v.Interface()\<close> panics on
  it.
\<close>

definition readOnly :: "path \<Rightarrow> bool" where
  "readOnly d = (pfields d \<noteq> [] \<and> PkgPath (last (pfields d)) \<noteq> [])"

text \<open>
  \<open>isZero\<close>; its first argument says whether the value is read-only, in which case the
  comparison through \<open>v.Interface()\<close> panics.
\<close>

definition isZero :: "bool \<Rightarrow> gtype \<times> val \<Rightarrow> error + bool" where
  "isZero ro tv =
     (case tv of (t, v) \<Rightarrow>
        if Kind t = KSlice then Inr (v = VSlice None)
        else if \<not> Comparable t then Inr False
        else if ro then
          Inl (Panic ''reflect.Value.Interface: cannot return value obtained from unexported field or method'')
        else Inr (v = zero t))"

subsection \<open>NewParser\<close>

text \<open>
  The body of the loop that adds nonzero field values as defaults. The type assertion
  \<open>v.Interface().(encoding.TextMarshaler)\<close> panics on a read-only value.
\<close>

definition addDefault :: "ext \<Rightarrow> store \<Rightarrow> spec \<Rightarrow> error + spec" where
  "addDefault X st sp =
     (case val st (dest sp) of
        None \<Rightarrow> Inr sp
      | Some (t, v) \<Rightarrow>
          (case isZero (readOnly (dest sp)) (t, v) of
             Inl err \<Rightarrow> Inl err
           | Inr True \<Rightarrow> Inr sp
           | Inr False \<Rightarrow>
               if readOnly (dest sp) then
                 Inl (Panic ''reflect.Value.Interface: cannot return value obtained from unexported field or method'')
               else
                 (case xMarshalText X t v of
                    None \<Rightarrow> Inr (sp\<lparr>defaultVal := xSprint X t v\<rparr>)
                  | Some (Inl m) \<Rightarrow>
                      Inl (Wrap (pathString (dest sp) @ '': error marshaling default value to string: '')
                             (External m))
                  | Some (Inr str) \<Rightarrow> Inr (sp\<lparr>defaultVal := str\<rparr>))))"

fun addDefaults :: "ext \<Rightarrow> store \<Rightarrow> spec list \<Rightarrow> error + spec list" where
  "addDefaults X st [] = Inr []"
| "addDefaults X st (sp # sps) =
     (case addDefault X st sp of
        Inl err \<Rightarrow> Inl err
      | Inr sp' \<Rightarrow>
          (case addDefaults X st sps of Inl err \<Rightarrow> Inl err | Inr r \<Rightarrow> Inr (sp' # r)))"

text \<open>
  The loop of \<open>NewParser\<close> over the destinations from number \<open>i\<close> on; \<open>acc\<close> is
  \<open>p.specs\<close>. The description string, which only the help text uses, is left out.
\<close>

fun newParserFrom :: "ext \<Rightarrow> store \<Rightarrow> nat \<Rightarrow> gtype list \<Rightarrow> spec list \<Rightarrow> error + spec list" where
  "newParserFrom X st i [] acc = Inr acc"
| "newParserFrom X st i (t # ts) acc =
     (case specsFromStruct \<lparr>root = i, pfields = []\<rparr> t of
        Inl err \<Rightarrow> Inl err
      | Inr specs \<Rightarrow>
          (case addDefaults X st specs of
             Inl err \<Rightarrow> Inl err
           | Inr specs' \<Rightarrow> newParserFrom X st (Suc i) ts (acc @ specs')))"

definition NewParser :: "ext \<Rightarrow> gtype list \<Rightarrow> store \<Rightarrow> error + spec list" where
  "NewParser X dests st = newParserFrom X st 0 dests []"

subsection \<open>Binding\<close>

text \<open>\<open>IsNil\<close>, \<open>SetLen(0)\<close> and \<open>reflect.Append\<close> panic on the wrong kind of value (\<open>None\<close>).\<close>

fun IsNil :: "val \<Rightarrow> bool option" where
  "IsNil (VPtr p) = Some (p = None)"
| "IsNil (VSlice xs) = Some (xs = None)"
| "IsNil VIface = Some True"
| "IsNil v = None"

fun SetLen0 :: "val \<Rightarrow> val option" where
  "SetLen0 (VSlice xs) = Some (VSlice (Some []))"
| "SetLen0 v = None"

fun Append :: "val \<Rightarrow> val \<Rightarrow> val option" where
  "Append (VSlice None) v = Some (VSlice (Some [v]))"
| "Append (VSlice (Some xs)) v = Some (VSlice (Some (xs @ [v])))"
| "Append w v = None"

text \<open>The loop of \<open>setSlice\<close> over the values; \<open>cur\<close> is the content of the destination.\<close>

fun appendValues :: "ext \<Rightarrow> gtype \<Rightarrow> bool \<Rightarrow> val \<Rightarrow> string list \<Rightarrow> error option \<times> val" where
  "appendValues X elem ptr cur [] = (None, cur)"
| "appendValues X elem ptr cur (s # ss) =
     (case xParseValue X elem True (zero elem) s of
        (v, Some m) \<Rightarrow> (Some (External m), cur)
      | (v, None) \<Rightarrow>
          (case Append cur (if ptr then VPtr (Some v) else v) of
             None \<Rightarrow> (Some (Panic ''reflect: call of reflect.Append on a value that is not a slice''), cur)
           | Some cur' \<Rightarrow> appendValues X elem ptr cur' ss))"

definition setSlice :: "ext \<Rightarrow> store \<Rightarrow> path \<Rightarrow> string list \<Rightarrow> error option \<times> store" where
  "setSlice X st d values =
     (case val st d of
        None \<Rightarrow> (Some ErrorFieldIsNotWritable, st)
      | Some (t, v) \<Rightarrow>
          if \<not> CanSet st d then (Some ErrorFieldIsNotWritable, st)
          else
            (case Elem t of
               None \<Rightarrow> (Some (Panic ''reflect: Elem of invalid type''), st)
             | Some e0 \<Rightarrow>
                 (case (if Kind e0 = KPtr \<and> \<not> Implements e0 then (True, Elem e0)
                        else (False, Some e0)) of
                    (ptr, None) \<Rightarrow> (Some (Panic ''reflect: Elem of invalid type''), st)
                  | (ptr, Some elem) \<Rightarrow>
                      (case IsNil v of
                         None \<Rightarrow> (Some (Panic ''reflect: call of reflect.Value.IsNil''), st)
                       | Some isnil \<Rightarrow>
                           (case (if isnil then Some v else SetLen0 v) of
                              None \<Rightarrow> (Some (Panic ''reflect: call of reflect.Value.SetLen''), st)
                            | Some v0 \<Rightarrow>
                                (case appendValues X elem ptr v0 values of
                                   (err, v') \<Rightarrow> (err, setCell st d (t, v'))))))))"

text \<open>
  The call \<open>scalar.ParseValue(p.val(spec.dest), s)\<close>; on the zero \<open>reflect.Value\<close> it
  panics.
\<close>

definition ParseValue :: "ext \<Rightarrow> store \<Rightarrow> path \<Rightarrow> string \<Rightarrow> error option \<times> store" where
  "ParseValue X st d s =
     (case val st d of
        None \<Rightarrow> (Some (Panic ''reflect: call of reflect.Value.Interface on zero Value''), st)
      | Some (t, v) \<Rightarrow>
          (case xParseValue X t (CanSet st d) v s of
             (v', e) \<Rightarrow> (map_option External e, setCell st d (t, v'))))"

text \<open>
  The body of the loop of \<open>captureEnvVars\<close>: the error, the destination, and whether the
  spec was recorded in \<open>wasPresent\<close>. The environment is the map \<open>env\<close>.
\<close>

definition captureEnvVar ::
  "ext \<Rightarrow> (string \<rightharpoonup> string) \<Rightarrow> spec \<Rightarrow> store \<Rightarrow> error option \<times> store \<times> bool" where
  "captureEnvVar X env sp st =
     (case env (name sp) of
        None \<Rightarrow> (None, st, False)
      | Some value \<Rightarrow>
          if multiple sp then
            (case fst (xCsvRead X value) of
               Inl m \<Rightarrow>
                 (Some (Wrap (''error reading a CSV string from environment variable '' @ name sp
                                @ '' with multiple values: '') (External m)), st, False)
             | Inr values \<Rightarrow>
                 (case setSlice X st (dest sp) values of
                    (Some err, st') \<Rightarrow>
                      (Some (wrapf (''error processing environment variable '' @ name sp
                                      @ '' with multiple values: '') err), st', False)
                  | (None, st') \<Rightarrow> (None, st', True)))
          else
            (case ParseValue X st (dest sp) value of
               (Some err, st') \<Rightarrow>
                 (Some (wrapf (''error processing environment variable '' @ name sp @ '': '') err),
                  st', False)
             | (None, st') \<Rightarrow> (None, st', True)))"

text \<open>
  \<open>captureEnvVars\<close>; \<open>wasPresent\<close> is returned as the list of its entries for the specs
  visited, in their order.
\<close>

fun captureEnvVars ::
  "ext \<Rightarrow> (string \<rightharpoonup> string) \<Rightarrow> spec list \<Rightarrow> store \<Rightarrow> error option \<times> store \<times> bool list" where
  "captureEnvVars X env [] st = (None, st, [])"
| "captureEnvVars X env (sp # sps) st =
     (case captureEnvVar X env sp st of
        (Some err, st', b) \<Rightarrow> (Some err, st', [])
      | (None, st', b) \<Rightarrow>
          (case captureEnvVars X env sps st' of (e, st'', bs) \<Rightarrow> (e, st'', b # bs)))"

text \<open>The second loop of \<open>process\<close>, over the specs paired with their \<open>wasPresent\<close> entry.\<close>

fun fillDefaults :: "ext \<Rightarrow> (spec \<times> bool) list \<Rightarrow> store \<Rightarrow> error option \<times> store" where
  "fillDefaults X [] st = (None, st)"
| "fillDefaults X ((sp, present) # rest) st =
     (if present then fillDefaults X rest st
      else if required sp then (Some (Wrap (name sp @ '': '') ErrorFieldIsRequired), st)
      else if defaultVal sp \<noteq> [] then
        (case ParseValue X st (dest sp) (defaultVal sp) of
           (Some err, st') \<Rightarrow>
             (Some (wrapf (''error processing default value for '' @ name sp @ '': '') err), st')
         | (None, st') \<Rightarrow> fillDefaults X rest st')
      else fillDefaults X rest st)"

definition process :: "ext \<Rightarrow> (string \<rightharpoonup> string) \<Rightarrow> spec list \<Rightarrow> store \<Rightarrow> error option \<times> store" where
  "process X env specs st =
     (case captureEnvVars X env specs st of
        (Some err, st', ps) \<Rightarrow> (Some err, st')
      | (None, st', ps) \<Rightarrow> fillDefaults X (zip specs ps) st')"


section \<open>A reference instance of the outside code\<close>

text \<open>
  Modelled from the spec: the Value Converter and the textual rendering, which the code
  takes from packages that are not among the sources. Strings pass through unchanged,
  booleans are read from the tokens of \<open>strconv.ParseBool\<close>, integers in base 10 with an
  optional sign and within 64 bits; an optional value gets storage for its referent; a
  type with the custom textual-decode capability is decoded by its own method, here those
  of the package's tests: a struct or number stores the length of the text, a boolean
  whether that length is even, a slice the length as its only element. A conversion that
  fails leaves the content as it is. The examples below are evaluated with this instance.
\<close>

definition isDigit :: "char \<Rightarrow> bool" where
  "isDigit c = ((48::nat) \<le> of_char c \<and> of_char c \<le> (57::nat))"

fun parseDigits :: "string \<Rightarrow> nat \<Rightarrow> nat option" where
  "parseDigits [] acc = Some acc"
| "parseDigits (c # cs) acc =
     (if isDigit c then parseDigits cs (acc * 10 + (of_char c - 48)) else None)"

definition parseInt :: "string \<Rightarrow> int option" where
  "parseInt s =
     (case s of
        [] \<Rightarrow> None
      | c # cs \<Rightarrow>
          if c = CHR ''-'' then
            (if cs = [] then None else map_option (\<lambda>n. - int n) (parseDigits cs 0))
          else if c = CHR ''+'' then
            (if cs = [] then None else map_option int (parseDigits cs 0))
          else map_option int (parseDigits s 0))"

definition inInt64 :: "int \<Rightarrow> bool" where
  "inInt64 i = (- 9223372036854775808 \<le> i \<and> i \<le> 9223372036854775807)"

definition strconvQuote :: "string \<Rightarrow> string" where
  "strconvQuote s = CHR 0x22 # s @ [CHR 0x22]"

definition digitChar :: "nat \<Rightarrow> char" where
  "digitChar d = ''0123456789'' ! (d mod 10)"

function showNat :: "nat \<Rightarrow> string" where
  "showNat n = (if n < 10 then [digitChar n] else showNat (n div 10) @ [digitChar n])"
  by pat_completeness auto
termination
  by (relation "measure id") auto

definition showInt :: "int \<Rightarrow> string" where
  "showInt i = (if i < 0 then CHR ''-'' # showNat (nat (- i)) else showNat (nat i))"

fun refParsePrim :: "gtype \<Rightarrow> val \<Rightarrow> string \<Rightarrow> val \<times> string option" where
  "refParsePrim TString v s = (VStr s, None)"
| "refParsePrim TBool v s =
     (if s \<in> set [''1'', ''t'', ''T'', ''TRUE'', ''true'', ''True''] then (VBool True, None)
      else if s \<in> set [''0'', ''f'', ''F'', ''FALSE'', ''false'', ''False''] then (VBool False, None)
      else (v, Some (''strconv.ParseBool: parsing '' @ strconvQuote s @ '': invalid syntax'')))"
| "refParsePrim TInt v s =
     (case parseInt s of
        Some i \<Rightarrow>
          if inInt64 i then (VInt i, None)
          else (v, Some (''strconv.ParseInt: parsing '' @ strconvQuote s @ '': value out of range''))
      | None \<Rightarrow> (v, Some (''strconv.ParseInt: parsing '' @ strconvQuote s @ '': invalid syntax'')))"
| "refParsePrim (TCustom n vr u) v s =
     ((case Kind u of
         KBool \<Rightarrow> VBool (even (length s))
       | KSlice \<Rightarrow> VSlice (Some [VInt (int (length s))])
       | KStruct \<Rightarrow> VStruct [VInt (int (length s))]
       | _ \<Rightarrow> VInt (int (length s))), None)"
| "refParsePrim t v s = (v, Some (''cannot parse into '' @ typeString t))"

fun refParseValue :: "gtype \<Rightarrow> bool \<Rightarrow> val \<Rightarrow> string \<Rightarrow> val \<times> string option" where
  "refParseValue (TPtr t) cs v s =
     (case refParsePrim t (case v of VPtr (Some w) \<Rightarrow> w | _ \<Rightarrow> zero t) s of
        (w, e) \<Rightarrow> (VPtr (Some w), e))"
| "refParseValue t cs v s = refParsePrim t v s"

text \<open>
  Modelled from the spec: the splitting of a multi-value string as CSV with standard
  quoting, which the code takes from \<open>encoding/csv\<close>. \<open>csvRead\<close> follows
  \<open>Reader.Read\<close> on a fresh reader with its default settings. Line ends are normalised
  as the reader does it line by line: a carriage return before a newline is dropped, and
  so is one at the very end of the input. Empty lines before the record are skipped; no
  input is left then, the error is \<open>EOF\<close>. A field that starts with a double quote runs
  to the closing quote, a doubled quote standing for one and a newline being part of the
  field; any other field runs to the next comma or to the end of the line and must not
  contain a double quote. The record ends with the line (or the input). The result comes
  with the input behind the record. An error is given by the text of its cause, without
  the position.
\<close>

fun normalizeNL :: "string \<Rightarrow> string" where
  "normalizeNL [] = []"
| "normalizeNL [c] = (if c = CHR 0x0D then [] else [c])"
| "normalizeNL (c # d # r) =
     (if c = CHR 0x0D \<and> d = CHR 0x0A then CHR 0x0A # normalizeNL r
      else c # normalizeNL (d # r))"

definition ErrBareQuote :: string where
  "ErrBareQuote = ''bare '' @ [CHR 0x22] @ '' in non-quoted-field''"

definition ErrQuote :: string where
  "ErrQuote = ''extraneous or missing '' @ [CHR 0x22] @ '' in quoted-field''"

definition afterLine :: "string \<Rightarrow> string" where
  "afterLine s = drop 1 (dropWhile (\<lambda>c. c \<noteq> CHR 0x0A) s)"

text \<open>
  At the start of a field (\<open>csvFields\<close>), inside a field without quotes (\<open>csvPlain\<close>)
  and inside a quoted field (\<open>csvQuoted\<close>); \<open>f\<close> is the field so far, \<open>acc\<close> the fields
  before it.
\<close>

fun csvFields :: "string \<Rightarrow> string list \<Rightarrow> (string + string list) \<times> string"
  and csvPlain :: "string \<Rightarrow> string \<Rightarrow> string list \<Rightarrow> (string + string list) \<times> string"
  and csvQuoted :: "string \<Rightarrow> string \<Rightarrow> string list \<Rightarrow> (string + string list) \<times> string"
where
  "csvFields [] acc = (Inr (acc @ [[]]), [])"
| "csvFields (c # r) acc =
     (if c = CHR 0x22 then csvQuoted r [] acc
      else if c = CHR '','' then csvFields r (acc @ [[]])
      else if c = CHR 0x0A then (Inr (acc @ [[]]), r)
      else csvPlain r [c] acc)"
| "csvPlain [] f acc = (Inr (acc @ [f]), [])"
| "csvPlain (c # r) f acc =
     (if c = CHR '','' then csvFields r (acc @ [f])
      else if c = CHR 0x0A then (Inr (acc @ [f]), r)
      else if c = CHR 0x22 then (Inl ErrBareQuote, afterLine r)
      else csvPlain r (f @ [c]) acc)"
| "csvQuoted [] f acc = (Inl ErrQuote, [])"
| "csvQuoted [c] f acc =
     (if c = CHR 0x22 then (Inr (acc @ [f]), []) else (Inl ErrQuote, []))"
| "csvQuoted (c # d # r) f acc =
     (if c \<noteq> CHR 0x22 then csvQuoted (d # r) (f @ [c]) acc
      else if d = CHR 0x22 then csvQuoted r (f @ [d]) acc
      else if d = CHR '','' then csvFields r (acc @ [f])
      else if d = CHR 0x0A then (Inr (acc @ [f]), r)
      else (Inl ErrQuote, afterLine r))"

definition csvRead :: "string \<Rightarrow> (string + string list) \<times> string" where
  "csvRead s =
     (let s1 = dropWhile (\<lambda>c. c = CHR 0x0A) (normalizeNL s)
      in if s1 = [] then (Inl ''EOF'', []) else csvFields s1 [])"

fun joinWith :: "string \<Rightarrow> string list \<Rightarrow> string" where
  "joinWith sep [] = []"
| "joinWith sep [x] = x"
| "joinWith sep (x # y # ys) = x @ sep @ joinWith sep (y # ys)"

fun refSprintVal :: "val \<Rightarrow> string" where
  "refSprintVal (VStr s) = s"
| "refSprintVal (VBool b) = (if b then ''true'' else ''false'')"
| "refSprintVal (VInt i) = showInt i"
| "refSprintVal v = ''?''"

fun refSprint :: "gtype \<Rightarrow> val \<Rightarrow> string" where
  "refSprint t (VSlice None) = ''[]''"
| "refSprint t (VSlice (Some xs)) = ''['' @ joinWith '' '' (map refSprintVal xs) @ '']''"
| "refSprint t v = refSprintVal v"

definition refX :: ext where
  "refX = \<lparr>xParseValue = refParseValue, xCsvRead = csvRead, xSprint = refSprint,
           xMarshalText = (\<lambda>t v. None)\<rparr>"

section \<open>Notions used in the statements, and example destinations\<close>

text \<open>The default literal a field declares with its \<open>default\<close> tag, empty when it has none.\<close>

definition explicitDefault :: "sfield \<Rightarrow> string" where
  "explicitDefault f = (case tag_default (Tag f) of None \<Rightarrow> [] | Some d \<Rightarrow> d)"

text \<open>What \<open>NewParser\<close> renders a nonzero field value to.\<close>

definition rendering :: "ext \<Rightarrow> gtype \<Rightarrow> val \<Rightarrow> string" where
  "rendering X t v = (case xMarshalText X t v of Some (Inr str) \<Rightarrow> str | _ \<Rightarrow> xSprint X t v)"

text \<open>A destination with non-nil roots whose listed cells hold the given contents.\<close>

definition storeOf :: "((nat \<times> nat list) \<times> gtype \<times> val) list \<Rightarrow> store" where
  "storeOf cs =
     \<lparr>nilRoot = (\<lambda>r. False),
      cells = (\<lambda>l. case map_of cs l of None \<Rightarrow> (TInterface, VIface) | Some c \<Rightarrow> c)\<rparr>"

definition mkSpec :: "sfield \<Rightarrow> string \<Rightarrow> string \<Rightarrow> bool \<Rightarrow> bool \<Rightarrow> bool \<Rightarrow> bool \<Rightarrow> spec" where
  "mkSpec f n d m r b h =
     \<lparr>dest = \<lparr>root = 0, pfields = [f]\<rparr>, sp_typ = Type f, name = n, sp_help = [],
      defaultVal = d, multiple = m, required = r, boolean = b, hasDefault = h\<rparr>"

text \<open>\<open>struct { Foo string `default:"abc"` }\<close> with \<open>Foo\<close> set to \<open>xyz\<close>.\<close>

definition fooDeclared :: sfield where
  "fooDeclared = SField ''Foo'' [] TString (STag [] None (Some ''abc'')) [0] False"

definition fooDeclaredStore :: store where
  "fooDeclaredStore = storeOf [((0, [0]), (TString, VStr ''xyz''))]"

text \<open>\<open>struct { Foo int `env:"required"` }\<close> with \<open>Foo\<close> set to 5.\<close>

definition fooRequired :: sfield where
  "fooRequired = SField ''Foo'' [] TInt (STag ''required'' None None) [0] False"

definition fooRequiredStore :: store where
  "fooRequiredStore = storeOf [((0, [0]), (TInt, VInt 5))]"

text \<open>\<open>struct { Foo []int }\<close> with \<open>Foo\<close> set to \<open>[]int{42}\<close>.\<close>

definition fooSlice :: sfield where
  "fooSlice = SField ''Foo'' [] (TSlice TInt) (STag [] None None) [0] False"

definition fooSliceStore :: store where
  "fooSliceStore = storeOf [((0, [0]), (TSlice TInt, VSlice (Some [VInt 42])))]"

text \<open>
  The tokens of a tag that \<open>lookAtTag\<close> examines: the non-empty pieces between commas,
  without leading spaces, split at the first colon into key and value. A token is
  recognised when its key is \<open>name\<close> with a value, or \<open>required\<close>.
\<close>

definition keyTokens :: "string list \<Rightarrow> (string \<times> string) list" where
  "keyTokens ks = map (\<lambda>k. keyValue (TrimLeft k (CHR '' ''))) (filter (\<lambda>k. k \<noteq> []) ks)"

definition tagTokens :: "string \<Rightarrow> (string \<times> string) list" where
  "tagTokens tag = keyTokens (Split (CHR '','') tag)"

definition recognised :: "string \<times> string \<Rightarrow> bool" where
  "recognised kv = ((fst kv = ''name'' \<and> snd kv \<noteq> []) \<or> fst kv = ''required'')"

fun nameAfter :: "(string \<times> string) list \<Rightarrow> string \<Rightarrow> string" where
  "nameAfter [] n = n"
| "nameAfter (kv # r) n = nameAfter r (if fst kv = ''name'' \<and> snd kv \<noteq> [] then snd kv else n)"

text \<open>\<open>struct { Foo int `env:"required,"` }\<close> and \<open>struct { Foo int `env:"name:x, required"` }\<close>.\<close>

definition fooTrailingComma :: sfield where
  "fooTrailingComma = SField ''Foo'' [] TInt (STag ''required,'' None None) [0] False"

definition fooNamed :: sfield where
  "fooNamed = SField ''Foo'' [] TInt (STag ''name:x, required'' None None) [0] False"

definition fooZeroStore :: store where
  "fooZeroStore = storeOf [((0, [0]), (TInt, VInt 0))]"

text \<open>The specs paired with whether their key is in the environment.\<close>

definition withPresence :: "(string \<rightharpoonup> string) \<Rightarrow> spec list \<Rightarrow> (spec \<times> bool) list" where
  "withPresence env specs = map (\<lambda>sp. (sp, env (name sp) \<noteq> None)) specs"

text \<open>The elements of a slice value.\<close>

fun sliceItems :: "val \<Rightarrow> val list" where
  "sliceItems (VSlice (Some xs)) = xs"
| "sliceItems v = []"

text \<open>\<open>struct { Foo int }\<close> and \<open>struct { Foo int `default:"0"` }\<close>, with their slots.\<close>

definition fooPlain :: sfield where
  "fooPlain = SField ''Foo'' [] TInt (STag [] None None) [0] False"

definition fooDefaultZero :: sfield where
  "fooDefaultZero = SField ''Foo'' [] TInt (STag [] None (Some ''0'')) [0] False"

text \<open>\<open>struct { A int `default:"7"`; B int `env:"required"` }\<close>, all zero.\<close>

definition fieldA :: sfield where
  "fieldA = SField ''A'' [] TInt (STag [] None (Some ''7'')) [0] False"

definition fieldB :: sfield where
  "fieldB = SField ''B'' [] TInt (STag ''required'' None None) [1] False"

definition abStore :: store where
  "abStore = storeOf [((0, [0]), (TInt, VInt 0)), ((0, [1]), (TInt, VInt 0))]"

text \<open>
  A converter is stable when whether it fails does not depend on the content it finds,
  when on success what it stores does not depend on it either, and when after a failure
  a second run on what the first one left changes nothing. The converters of booleans,
  numbers and strings are like that: they store a function of the text, or fail and leave
  the field as it is.
\<close>

definition stableConverter :: "ext \<Rightarrow> bool" where
  "stableConverter X =
     (\<forall>t c v w s.
        snd (xParseValue X t c v s) = snd (xParseValue X t c w s) \<and>
        (snd (xParseValue X t c v s) = None \<longrightarrow>
           fst (xParseValue X t c v s) = fst (xParseValue X t c w s)) \<and>
        (snd (xParseValue X t c v s) \<noteq> None \<longrightarrow>
           fst (xParseValue X t c (fst (xParseValue X t c v s)) s) = fst (xParseValue X t c v s)))"

text \<open>
  For a schema without multi-value slots a pass is a list of conversions into destinations
  and of refusals, fixed by the schema and the environment alone; \<open>run\<close> carries it out.
\<close>

datatype action = Convert path string string | Refuse error

fun run :: "ext \<Rightarrow> action list \<Rightarrow> store \<Rightarrow> error option \<times> store" where
  "run X [] st = (None, st)"
| "run X (Refuse err # as) st = (Some err, st)"
| "run X (Convert d s m # as) st =
     (case ParseValue X st d s of
        (Some err, st') \<Rightarrow> (Some (wrapf m err), st')
      | (None, st') \<Rightarrow> run X as st')"

definition captureAction :: "(string \<rightharpoonup> string) \<Rightarrow> spec \<Rightarrow> action list" where
  "captureAction env sp =
     (case env (name sp) of
        None \<Rightarrow> []
      | Some value \<Rightarrow>
          [Convert (dest sp) value (''error processing environment variable '' @ name sp @ '': '')])"

definition fillAction :: "(string \<rightharpoonup> string) \<Rightarrow> spec \<Rightarrow> action list" where
  "fillAction env sp =
     (if env (name sp) \<noteq> None then []
      else if required sp then [Refuse (Wrap (name sp @ '': '') ErrorFieldIsRequired)]
      else if defaultVal sp \<noteq> [] then
        [Convert (dest sp) (defaultVal sp) (''error processing default value for '' @ name sp @ '': '')]
      else [])"

definition passActions :: "(string \<rightharpoonup> string) \<Rightarrow> spec list \<Rightarrow> action list" where
  "passActions env specs = concat (map (captureAction env) specs) @ concat (map (fillAction env) specs)"

text \<open>
  Two runs of the same actions from destinations \<open>A\<close> and \<open>B\<close>, ending in \<open>A'\<close> and
  \<open>B'\<close>, are related when every cell ends with the same content in both, or is left as it
  was in both, or holds in both what one failed conversion left of its former content.
\<close>

definition leftover :: "ext \<Rightarrow> store \<Rightarrow> store \<Rightarrow> store \<Rightarrow> store \<Rightarrow> nat \<times> nat list \<Rightarrow> bool" where
  "leftover X A B A' B' l =
     (\<exists>c s. snd (xParseValue X (fst (cells A l)) c (snd (cells A l)) s) \<noteq> None \<and>
        cells A' l = (fst (cells A l), fst (xParseValue X (fst (cells A l)) c (snd (cells A l)) s)) \<and>
        cells B' l = (fst (cells A l), fst (xParseValue X (fst (cells A l)) c (snd (cells B l)) s)))"

definition related :: "ext \<Rightarrow> store \<Rightarrow> store \<Rightarrow> store \<Rightarrow> store \<Rightarrow> bool" where
  "related X A B A' B' =
     (\<forall>l. cells A' l = cells B' l \<or> (cells A' l = cells A l \<and> cells B' l = cells B l) \<or>
          leftover X A B A' B' l)"

text \<open>
  What \<open>setSlice\<close> makes of the type of its destination: whether the elements are
  pointers to what is parsed, and the type that is parsed. \<open>converted\<close> is the element
  that \<open>setSlice\<close> appends for one part, and \<open>replaced\<close> the slice it leaves when every
  part converts.
\<close>

definition sliceTarget :: "gtype \<Rightarrow> (bool \<times> gtype) option" where
  "sliceTarget t =
     (case Elem t of
        None \<Rightarrow> None
      | Some e0 \<Rightarrow>
          if Kind e0 = KPtr \<and> \<not> Implements e0 then map_option (Pair True) (Elem e0)
          else Some (False, e0))"

definition converted :: "ext \<Rightarrow> bool \<Rightarrow> gtype \<Rightarrow> string \<Rightarrow> val" where
  "converted X ptr elem s =
     (if ptr then VPtr (Some (fst (xParseValue X elem True (zero elem) s)))
      else fst (xParseValue X elem True (zero elem) s))"

definition replaced :: "val list option \<Rightarrow> val list \<Rightarrow> val" where
  "replaced old items = VSlice (if items = [] then map_option (\<lambda>xs. []) old else Some items)"

text \<open>
  The type \<open>sliceUnmarshaler\<close> of the package's tests and the struct
  \<open>struct { Foo *sliceUnmarshaler }\<close> with \<open>Foo\<close> nil; a struct type \<open>Decoder\<close> with
  one field \<open>Val int\<close> and an \<open>UnmarshalText\<close> method, \<open>struct { Decoder }\<close>,
  which embeds it, and \<open>struct { Foo []Decoder }\<close> with \<open>Foo\<close> nil.
\<close>

definition sliceUnmarshaler :: gtype where
  "sliceUnmarshaler = TCustom ''sliceUnmarshaler'' False (TSlice TInt)"

definition fooCustom :: sfield where
  "fooCustom = SField ''Foo'' [] (TPtr sliceUnmarshaler) (STag [] None None) [0] False"

definition fooCustomStore :: store where
  "fooCustomStore = storeOf [((0, [0]), (TPtr sliceUnmarshaler, VPtr None))]"

definition Decoder :: gtype where
  "Decoder =
     TCustom ''Decoder'' False
       (TStruct ''Decoder'' [SField ''Val'' [] TInt (STag [] None None) [0] False])"

definition embeddedDecoder :: sfield where
  "embeddedDecoder = SField ''Decoder'' [] Decoder (STag [] None None) [0] True"

definition embeddedVal :: sfield where
  "embeddedVal = SField ''Val'' [] TInt (STag [] None None) [0, 0] False"

definition embeddedStore :: store where
  "embeddedStore = storeOf [((0, [0, 0]), (TInt, VInt 0))]"

definition fooDecoders :: sfield where
  "fooDecoders = SField ''Foo'' [] (TSlice Decoder) (STag [] None None) [0] False"

definition fooDecodersStore :: store where
  "fooDecodersStore = storeOf [((0, [0]), (TSlice Decoder, VSlice None))]"

text \<open>
  A converter whose decoder for slice types with a method of their own appends the text
  to what the field holds, and \<open>struct { Foo appender }\<close> for such a type
  \<open>appender\<close>.
\<close>

fun accParseValue :: "gtype \<Rightarrow> bool \<Rightarrow> val \<Rightarrow> string \<Rightarrow> val \<times> string option" where
  "accParseValue (TCustom n vr (TSlice u)) c v s =
     (VSlice (Some ((case v of VSlice (Some xs) \<Rightarrow> xs | _ \<Rightarrow> []) @ [VStr s])), None)"
| "accParseValue t c v s = refParseValue t c v s"

definition accX :: ext where
  "accX = \<lparr>xParseValue = accParseValue, xCsvRead = csvRead, xSprint = refSprint,
           xMarshalText = (\<lambda>t v. None)\<rparr>"

definition fooAppender :: sfield where
  "fooAppender =
     SField ''Foo'' [] (TCustom ''appender'' False (TSlice TString)) (STag [] None None) [0] False"

definition fooAppenderStore :: store where
  "fooAppenderStore =
     storeOf [((0, [0]), (TCustom ''appender'' False (TSlice TString), VSlice None))]"

text \<open>
  \<open>struct { A int `env:"required" default:"123"` }\<close> and
  \<open>struct { A []int `default:"123"` }\<close>.
\<close>

definition aRequiredDefault :: sfield where
  "aRequiredDefault = SField ''A'' [] TInt (STag ''required'' None (Some ''123'')) [0] False"

definition aSliceDefault :: sfield where
  "aSliceDefault = SField ''A'' [] (TSlice TInt) (STag [] None (Some ''123'')) [0] False"

section \<open>Where the slots of a schema come from\<close>

lemma walkFieldsImpl_from_walker:
  "walkFieldsImpl dst t p i fs = Inr specs \<Longrightarrow> sp \<in> set specs \<Longrightarrow>
     \<exists>f tn ex. walker dst f tn = (Some sp, ex, None)"
proof (induction dst t p i fs arbitrary: specs rule: walkFieldsImpl.induct)
  case (1 dst t p i)
  then show ?case by simp
next
  case (2 dst t p i f fs)
  obtain s ex er where w: "walker dst (withIndex f (p @ [i])) (TypeName t) = (s, ex, er)"
    by (cases "walker dst (withIndex f (p @ [i])) (TypeName t)") auto
  from "2.prems"(1) w have er: "er = None"
    by (cases er) simp_all
  define sub where "sub = (if ex
                 then walkFieldsImpl dst (Type f) (if Anonymous f then p @ [i] else []) 0
                        (StructFields (Type f))
                 else Inr [])"
  from "2.prems"(1) w er obtain subs rest where
    s1: "sub = Inr subs" and s2: "walkFieldsImpl dst t p (Suc i) fs = Inr rest"
    and sp: "specs = (case s of None \<Rightarrow> [] | Some s \<Rightarrow> [s]) @ subs @ rest"
    unfolding sub_def by (auto split: sum.splits if_splits)
  from "2.prems"(2) sp consider "s = Some sp" | "sp \<in> set subs" | "sp \<in> set rest"
    by (auto split: option.splits)
  then show ?case
  proof cases
    case 1
    with w er show ?thesis by blast
  next
    case 2
    with s1 have ex by (auto simp: sub_def split: if_splits)
    with "2.IH"(1)[of s "(ex, er)" ex er subs] s1 w er 2 show ?thesis
      by (simp add: sub_def)
  next
    case 3
    from "2.IH"(2)[of s "(ex, er)" ex er _ rest] w er s1 s2 3 show ?thesis
      by (simp add: sub_def)
  qed
qed


lemma specsFromStruct_from_walker:
  "specsFromStruct dst t = Inr specs \<Longrightarrow> sp \<in> set specs \<Longrightarrow>
     \<exists>f tn ex. walker dst f tn = (Some sp, ex, None)"
  unfolding specsFromStruct_def walkFields_def
  by (auto split: if_splits option.splits dest: walkFieldsImpl_from_walker)

lemma addDefaults_from_addDefault:
  "addDefaults X st specs = Inr specs' \<Longrightarrow> sp' \<in> set specs' \<Longrightarrow>
     \<exists>sp \<in> set specs. addDefault X st sp = Inr sp'"
proof (induction specs arbitrary: specs')
  case Nil
  then show ?case by simp
next
  case (Cons a specs)
  then show ?case by (auto split: sum.splits)
qed

lemma newParserFrom_slot:
  "newParserFrom X st i ts acc = Inr specs \<Longrightarrow> sp' \<in> set specs \<Longrightarrow>
     sp' \<in> set acc \<or>
     (\<exists>r f tn ex sp. walker \<lparr>root = r, pfields = []\<rparr> f tn = (Some sp, ex, None) \<and>
        addDefault X st sp = Inr sp')"
proof (induction ts arbitrary: i acc)
  case Nil
  then show ?case by simp
next
  case (Cons t ts)
  from Cons.prems(1) obtain s1 s2 where
    a: "specsFromStruct \<lparr>root = i, pfields = []\<rparr> t = Inr s1" and
    b: "addDefaults X st s1 = Inr s2" and
    c: "newParserFrom X st (Suc i) ts (acc @ s2) = Inr specs"
    by (auto split: sum.splits)
  from Cons.IH[OF c Cons.prems(2)] show ?case
  proof
    assume "sp' \<in> set (acc @ s2)"
    then consider "sp' \<in> set acc" | "sp' \<in> set s2" by auto
    then show ?thesis
    proof cases
      case 1
      then show ?thesis by simp
    next
      case 2
      from addDefaults_from_addDefault[OF b 2] obtain sp where
        "sp \<in> set s1" "addDefault X st sp = Inr sp'" by blast
      with specsFromStruct_from_walker[OF a] show ?thesis by blast
    qed
  next
    assume "\<exists>r f tn ex sp. walker \<lparr>root = r, pfields = []\<rparr> f tn = (Some sp, ex, None) \<and>
        addDefault X st sp = Inr sp'"
    then show ?thesis by simp
  qed
qed

lemma NewParser_slot:
  "NewParser X dests st = Inr specs \<Longrightarrow> sp' \<in> set specs \<Longrightarrow>
     \<exists>r f tn ex sp. walker \<lparr>root = r, pfields = []\<rparr> f tn = (Some sp, ex, None) \<and>
        addDefault X st sp = Inr sp'"
  unfolding NewParser_def by (drule newParserFrom_slot) auto

lemma lookAtKeys_invariant:
  assumes "lookAtKeys ks sp = Inr sp'" and "P sp"
    and "\<And>s v. P s \<Longrightarrow> P (s\<lparr>name := v\<rparr>)"
    and "\<And>s. P s \<Longrightarrow> \<not> hasDefault s \<Longrightarrow> P (s\<lparr>required := True\<rparr>)"
  shows "P sp'"
  using assms(1,2)
proof (induction ks sp rule: lookAtKeys.induct)
  case (1 sp)
  then show ?case by simp
next
  case (2 k ks sp)
  obtain key v where kv: "keyValue (TrimLeft k (CHR '' '')) = (key, v)"
    by (cases "keyValue (TrimLeft k (CHR '' ''))") auto
  show ?case
  proof (cases "k = []")
    case True
    with 2 show ?thesis by simp
  next
    case False
    note ne = this
    show ?thesis
    proof (cases "key = ''name'' \<and> v \<noteq> []")
      case True
      with "2.IH"(2)[OF ne kv[symmetric] refl] "2.prems" ne kv assms(3) show ?thesis by simp
    next
      case False
      note nn = this
      show ?thesis
      proof (cases "key = ''required''")
        case True
        with "2.IH"(3)[OF ne kv[symmetric] refl nn] "2.prems" ne kv nn assms(4) show ?thesis
          by (simp split: if_splits)
      next
        case False
        with "2.prems" ne kv nn show ?thesis by simp
      qed
    qed
  qed
qed

lemma lookAtKeys_keeps:
  assumes "lookAtKeys ks sp = Inr sp'"
  shows "hasDefault sp' = hasDefault sp \<and> defaultVal sp' = defaultVal sp \<and> dest sp' = dest sp
     \<and> sp_typ sp' = sp_typ sp \<and> multiple sp' = multiple sp \<and> boolean sp' = boolean sp"
  by (rule lookAtKeys_invariant[OF assms]) simp_all

lemma lookAtKeys_required:
  assumes "lookAtKeys ks sp = Inr sp'" and "\<not> required sp"
  shows "\<not> (required sp' \<and> hasDefault sp')"
  by (rule lookAtKeys_invariant[OF assms(1)]) (simp_all add: assms(2))

lemma walker_Some:
  assumes "walker dst f tn = (Some sp, ex, None)"
  shows "tag_env (Tag f) \<noteq> ''-'' \<and> \<not> (Anonymous f \<and> Kind (Type f) = KStruct) \<and> \<not> ex \<and>
     (\<exists>sp2 bo mu. lookAtTag (tag_env (Tag f)) (newSpec dst f) = Inr sp2 \<and>
        canParse (Type f) = (True, bo, mu) \<and>
        sp = sp2\<lparr>boolean := bo, multiple := mu\<rparr> \<and>
        \<not> (mu \<and> hasDefault sp2))"
proof -
  have a: "tag_env (Tag f) \<noteq> ''-''" and b: "\<not> (Anonymous f \<and> Kind (Type f) = KStruct)"
    using assms unfolding walker_def by (auto simp: Let_def split: if_splits)
  obtain r where r: "lookAtTag (tag_env (Tag f)) (newSpec dst f) = r" by simp
  obtain pa bo mu where c: "canParse (Type f) = (pa, bo, mu)" by (cases "canParse (Type f)") auto
  show ?thesis
  proof (cases r)
    case (Inl e)
    with assms a b r show ?thesis unfolding walker_def by (simp add: Let_def)
  next
    case (Inr sp2)
    with assms a b r c show ?thesis unfolding walker_def
      by (simp add: Let_def split: if_splits)
  qed
qed

lemma newSpec_simps:
  "dest (newSpec dst f) = Child dst f" "sp_typ (newSpec dst f) = Type f"
  "hasDefault (newSpec dst f) = (tag_default (Tag f) \<noteq> None)"
  "defaultVal (newSpec dst f) = explicitDefault f"
  "required (newSpec dst f) = False"
  "name (newSpec dst f) = ToLower (Name f)"
  unfolding newSpec_def explicitDefault_def SetDefault_def
  by (simp_all add: Let_def split: option.splits)

lemma walker_spec:
  assumes "walker dst f tn = (Some sp, ex, None)"
  shows "dest sp = Child dst f" and "sp_typ sp = Type f"
    and "hasDefault sp = (tag_default (Tag f) \<noteq> None)"
    and "defaultVal sp = explicitDefault f"
    and "\<not> (required sp \<and> hasDefault sp)"
    and "\<not> (multiple sp \<and> hasDefault sp)"
    and "canParse (Type f) = (True, boolean sp, multiple sp)"
proof -
  from walker_Some[OF assms] obtain sp2 bo mu where
    l: "lookAtKeys (Split (CHR '','') (tag_env (Tag f))) (newSpec dst f) = Inr sp2" and
    c: "canParse (Type f) = (True, bo, mu)" and
    s: "sp = sp2\<lparr>boolean := bo, multiple := mu\<rparr>" and
    m: "\<not> (mu \<and> hasDefault sp2)"
    unfolding lookAtTag_def by blast
  note k = lookAtKeys_keeps[OF l]
  show "dest sp = Child dst f" "sp_typ sp = Type f"
    "hasDefault sp = (tag_default (Tag f) \<noteq> None)" "defaultVal sp = explicitDefault f"
    using s k by (simp_all add: newSpec_simps)
  show "\<not> (required sp \<and> hasDefault sp)"
    using s lookAtKeys_required[OF l] by (simp add: newSpec_simps)
  show "\<not> (multiple sp \<and> hasDefault sp)" using s m by simp
  show "canParse (Type f) = (True, boolean sp, multiple sp)" using s c by simp
qed

lemma addDefault_keeps:
  assumes "addDefault X st sp = Inr sp'"
  shows "dest sp' = dest sp" "required sp' = required sp" "multiple sp' = multiple sp"
    "hasDefault sp' = hasDefault sp" "boolean sp' = boolean sp" "name sp' = name sp"
    "sp_typ sp' = sp_typ sp"
  using assms unfolding addDefault_def
  by (auto split: option.splits if_splits sum.splits bool.splits)

lemma addDefault_defaultVal:
  assumes "addDefault X st sp = Inr sp'"
  shows "defaultVal sp' =
     (case val st (dest sp) of
        None \<Rightarrow> defaultVal sp
      | Some (t, v) \<Rightarrow> if isZero (readOnly (dest sp)) (t, v) = Inr True then defaultVal sp else rendering X t v)"
  using assms unfolding addDefault_def rendering_def
  by (auto split: option.splits if_splits sum.splits bool.splits)

lemma NewParser_hasDefault:
  assumes "NewParser X dests st = Inr specs" and "sp \<in> set specs"
  shows "hasDefault sp = (tag_default (Tag (last (pfields (dest sp)))) \<noteq> None)"
    and "\<not> (required sp \<and> hasDefault sp)" and "\<not> (multiple sp \<and> hasDefault sp)"
proof -
  from NewParser_slot[OF assms] obtain r f tn ex sp0 where
    w: "walker \<lparr>root = r, pfields = []\<rparr> f tn = (Some sp0, ex, None)" and
    a: "addDefault X st sp0 = Inr sp" by blast
  have "dest sp = Child \<lparr>root = r, pfields = []\<rparr> f"
    using addDefault_keeps(1)[OF a] walker_spec(1)[OF w] by simp
  then have "last (pfields (dest sp)) = f" by (simp add: Child_def)
  then show "hasDefault sp = (tag_default (Tag (last (pfields (dest sp)))) \<noteq> None)"
    using addDefault_keeps(4)[OF a] walker_spec(3)[OF w] by simp
  show "\<not> (required sp \<and> hasDefault sp)"
    using addDefault_keeps(2,4)[OF a] walker_spec(5)[OF w] by simp
  show "\<not> (multiple sp \<and> hasDefault sp)"
    using addDefault_keeps(3,4)[OF a] walker_spec(6)[OF w] by simp
qed

section \<open>Field annotations\<close>

lemma lookAtKeys_Cons:
  "k \<noteq> [] \<Longrightarrow> keyValue (TrimLeft k (CHR '' '')) = (key, v) \<Longrightarrow>
     lookAtKeys (k # ks) sp =
       (if key = ''name'' \<and> v \<noteq> [] then lookAtKeys ks (sp\<lparr>name := v\<rparr>)
        else if key = ''required'' then
          (if hasDefault sp then Inl ErrorRequiredWithDefault
           else lookAtKeys ks (sp\<lparr>required := True\<rparr>))
        else Inl (Wrap (key @ ''-'') ErrorUnrecognizedTag))"
  by simp

lemma lookAtKeys_Inr_iff:
  "lookAtKeys ks sp = Inr sp' \<longleftrightarrow>
     list_all recognised (keyTokens ks) \<and>
     \<not> (hasDefault sp \<and> ''required'' \<in> fst ` set (keyTokens ks)) \<and>
     sp' = sp\<lparr>name := nameAfter (keyTokens ks) (name sp),
              required := (required sp \<or> ''required'' \<in> fst ` set (keyTokens ks))\<rparr>"
proof (induction ks arbitrary: sp)
  case Nil
  show ?case by (auto simp: keyTokens_def)
next
  case (Cons k ks)
  obtain key v where kv: "keyValue (TrimLeft k (CHR '' '')) = (key, v)"
    by (cases "keyValue (TrimLeft k (CHR '' ''))") auto
  show ?case
  proof (cases "k = []")
    case True
    then show ?thesis using Cons.IH[of sp] by (simp add: keyTokens_def)
  next
    case False
    note u = lookAtKeys_Cons[OF False kv, of ks sp]
    from False have t: "keyTokens (k # ks) = (key, v) # keyTokens ks"
      by (simp add: keyTokens_def kv)
    show ?thesis
    proof (cases "key = ''name'' \<and> v \<noteq> []")
      case True
      then have nr: "key \<noteq> ''required''" by simp
      from True have r: "recognised (key, v)" by (simp add: recognised_def)
      have "lookAtKeys (k # ks) sp = lookAtKeys ks (sp\<lparr>name := v\<rparr>)"
        by (simp only: u if_P[OF True])
      then show ?thesis unfolding t using Cons.IH[of "sp\<lparr>name := v\<rparr>"] True nr r
        by simp
    next
      case False
      note nn = this
      show ?thesis
      proof (cases "key = ''required''")
        case True
        have r: "recognised (key, v)" using True by (simp add: recognised_def)
        show ?thesis
        proof (cases "hasDefault sp")
          case True
          have "lookAtKeys (k # ks) sp = Inl ErrorRequiredWithDefault"
            by (simp only: u if_not_P[OF nn] if_P[OF \<open>key = ''required''\<close>] if_P[OF True])
          then show ?thesis unfolding t using True \<open>key = ''required''\<close> by simp
        next
          case False
          have "lookAtKeys (k # ks) sp = lookAtKeys ks (sp\<lparr>required := True\<rparr>)"
            by (simp only: u if_not_P[OF nn] if_P[OF \<open>key = ''required''\<close>] if_not_P[OF False])
          then show ?thesis unfolding t
            using Cons.IH[of "sp\<lparr>required := True\<rparr>"] False \<open>key = ''required''\<close> nn r
            by simp
        qed
      next
        case False
        have "lookAtKeys (k # ks) sp = Inl (Wrap (key @ ''-'') ErrorUnrecognizedTag)"
          by (simp only: u if_not_P[OF nn] if_not_P[OF False])
        moreover have "\<not> recognised (key, v)" using nn False by (simp add: recognised_def)
        ultimately show ?thesis unfolding t by simp
      qed
    qed
  qed
qed


lemma lookAtKeys_Inl:
  "lookAtKeys ks sp = Inl e \<Longrightarrow>
     (e = ErrorRequiredWithDefault \<and> hasDefault sp \<and> ''required'' \<in> fst ` set (keyTokens ks)) \<or>
     (\<exists>kv \<in> set (keyTokens ks). \<not> recognised kv \<and> e = Wrap (fst kv @ ''-'') ErrorUnrecognizedTag)"
proof (induction ks arbitrary: sp)
  case Nil
  then show ?case by simp
next
  case (Cons k ks)
  obtain key v where kv: "keyValue (TrimLeft k (CHR '' '')) = (key, v)"
    by (cases "keyValue (TrimLeft k (CHR '' ''))") auto
  show ?case
  proof (cases "k = []")
    case True
    then show ?thesis using Cons.IH[of sp] Cons.prems by (simp add: keyTokens_def)
  next
    case False
    note u = lookAtKeys_Cons[OF False kv, of ks sp]
    from False have t: "keyTokens (k # ks) = (key, v) # keyTokens ks"
      by (simp add: keyTokens_def kv)
    show ?thesis
    proof (cases "key = ''name'' \<and> v \<noteq> []")
      case True
      have "lookAtKeys ks (sp\<lparr>name := v\<rparr>) = Inl e"
        using Cons.prems by (simp only: u if_P[OF True])
      from Cons.IH[OF this] show ?thesis unfolding t by auto
    next
      case False
      note nn = this
      show ?thesis
      proof (cases "key = ''required''")
        case True
        show ?thesis
        proof (cases "hasDefault sp")
          case True
          have "e = ErrorRequiredWithDefault"
            using Cons.prems
            by (simp only: u if_not_P[OF nn] if_P[OF \<open>key = ''required''\<close>] if_P[OF True]) simp
          then show ?thesis unfolding t using True \<open>key = ''required''\<close> by simp
        next
          case False
          have "lookAtKeys ks (sp\<lparr>required := True\<rparr>) = Inl e"
            using Cons.prems
            by (simp only: u if_not_P[OF nn] if_P[OF \<open>key = ''required''\<close>] if_not_P[OF False])
          from Cons.IH[OF this] show ?thesis unfolding t by auto
        qed
      next
        case False
        have "e = Wrap (key @ ''-'') ErrorUnrecognizedTag"
          using Cons.prems by (simp only: u if_not_P[OF nn] if_not_P[OF False]) simp
        moreover have "\<not> recognised (key, v)" using nn False by (simp add: recognised_def)
        ultimately show ?thesis unfolding t by simp
      qed
    qed
  qed
qed

lemma walker_tag_error:
  assumes "tag_env (Tag f) \<noteq> ''-''" and "\<not> (Anonymous f \<and> Kind (Type f) = KStruct)"
    and "lookAtTag (tag_env (Tag f)) (newSpec dst f) = Inl e"
  shows "walker dst f tn = (None, False, Some (Wrap (tn @ ''.'' @ Name f @ '': '') e))"
  using assms unfolding walker_def by (simp add: Let_def)

lemma walker_name:
  assumes "walker dst f tn = (Some sp, ex, None)"
  shows "name sp = nameAfter (tagTokens (tag_env (Tag f))) (ToLower (Name f))"
    and "required sp = (''required'' \<in> fst ` set (tagTokens (tag_env (Tag f))))"
proof -
  from walker_Some[OF assms] obtain sp2 bo mu where
    l: "lookAtKeys (Split (CHR '','') (tag_env (Tag f))) (newSpec dst f) = Inr sp2" and
    s: "sp = sp2\<lparr>boolean := bo, multiple := mu\<rparr>"
    unfolding lookAtTag_def by blast
  from l[unfolded lookAtKeys_Inr_iff] have
    "sp2 = (newSpec dst f)\<lparr>name := nameAfter (tagTokens (tag_env (Tag f))) (name (newSpec dst f)),
       required := (required (newSpec dst f) \<or>
          ''required'' \<in> fst ` set (tagTokens (tag_env (Tag f))))\<rparr>"
    unfolding tagTokens_def by blast
  then have "name sp2 = nameAfter (tagTokens (tag_env (Tag f))) (ToLower (Name f))"
    and "required sp2 = (''required'' \<in> fst ` set (tagTokens (tag_env (Tag f))))"
    by (simp_all add: newSpec_simps)
  then show "name sp = nameAfter (tagTokens (tag_env (Tag f))) (ToLower (Name f))"
    and "required sp = (''required'' \<in> fst ` set (tagTokens (tag_env (Tag f))))"
    using s by simp_all
qed

text \<open>
  Claim C9, as amended. For every field annotation string, parsing splits it on commas;
  empty pieces are skipped, leading spaces of a piece are dropped, and the piece is split at
  its first colon into key and value. The annotation is accepted exactly when every such
  token has the key \<open>name\<close> with a non-empty value or the key \<open>required\<close>, and no
  \<open>required\<close> token meets a declared default; then the last \<open>name\<close> value overrides the
  slot's environment-variable name and a \<open>required\<close> token marks the slot required.
  Otherwise lookAtTag fails, with the required-with-default error or with an error that
  names the key of an unrecognised token (\<open>name\<close> with an empty value included), and
  \<open>walker\<close> fails with that error under the field's name. An empty annotation has no
  tokens and leaves the lower-cased field name as the key.
\<close>

theorem lookAtTag_tokens:
  "(lookAtTag tag sp = Inr sp' \<longleftrightarrow>
      list_all recognised (tagTokens tag) \<and>
      \<not> (hasDefault sp \<and> ''required'' \<in> fst ` set (tagTokens tag)) \<and>
      sp' = sp\<lparr>name := nameAfter (tagTokens tag) (name sp),
               required := (required sp \<or> ''required'' \<in> fst ` set (tagTokens tag))\<rparr>) \<and>
   (lookAtTag tag sp = Inl e \<longrightarrow>
      (e = ErrorRequiredWithDefault \<and> hasDefault sp \<and> ''required'' \<in> fst ` set (tagTokens tag)) \<or>
      (\<exists>kv \<in> set (tagTokens tag). \<not> recognised kv \<and>
         e = Wrap (fst kv @ ''-'') ErrorUnrecognizedTag)) \<and>
   (tag_env (Tag f) \<noteq> ''-'' \<and> \<not> (Anonymous f \<and> Kind (Type f) = KStruct) \<and>
    lookAtTag (tag_env (Tag f)) (newSpec dst f) = Inl e \<longrightarrow>
      walker dst f tn = (None, False, Some (Wrap (tn @ ''.'' @ Name f @ '': '') e))) \<and>
   (walker dst f tn = (Some sl, ex, None) \<longrightarrow>
      name sl = nameAfter (tagTokens (tag_env (Tag f))) (ToLower (Name f)) \<and>
      required sl = (''required'' \<in> fst ` set (tagTokens (tag_env (Tag f))))) \<and>
   tagTokens [] = [] \<and> nameAfter [] (ToLower (Name f)) = ToLower (Name f)"
proof -
  have c1: "lookAtTag tag sp = Inr sp' \<longleftrightarrow>
      list_all recognised (tagTokens tag) \<and>
      \<not> (hasDefault sp \<and> ''required'' \<in> fst ` set (tagTokens tag)) \<and>
      sp' = sp\<lparr>name := nameAfter (tagTokens tag) (name sp),
               required := (required sp \<or> ''required'' \<in> fst ` set (tagTokens tag))\<rparr>"
    unfolding lookAtTag_def tagTokens_def by (rule lookAtKeys_Inr_iff)
  have c2: "lookAtTag tag sp = Inl e \<longrightarrow>
      (e = ErrorRequiredWithDefault \<and> hasDefault sp \<and> ''required'' \<in> fst ` set (tagTokens tag)) \<or>
      (\<exists>kv \<in> set (tagTokens tag). \<not> recognised kv \<and>
         e = Wrap (fst kv @ ''-'') ErrorUnrecognizedTag)"
    unfolding lookAtTag_def tagTokens_def by (rule impI) (rule lookAtKeys_Inl)
  have c3: "tag_env (Tag f) \<noteq> ''-'' \<and> \<not> (Anonymous f \<and> Kind (Type f) = KStruct) \<and>
    lookAtTag (tag_env (Tag f)) (newSpec dst f) = Inl e \<longrightarrow>
      walker dst f tn = (None, False, Some (Wrap (tn @ ''.'' @ Name f @ '': '') e))"
    using walker_tag_error[of f dst e tn] by blast
  have c4: "walker dst f tn = (Some sl, ex, None) \<longrightarrow>
      name sl = nameAfter (tagTokens (tag_env (Tag f))) (ToLower (Name f)) \<and>
      required sl = (''required'' \<in> fst ` set (tagTokens (tag_env (Tag f))))"
    using walker_name[of dst f tn sl ex] by blast
  have c5: "tagTokens [] = []" by (simp add: tagTokens_def keyTokens_def)
  have c6: "nameAfter [] (ToLower (Name f)) = ToLower (Name f)" by simp
  show ?thesis by (rule conjI[OF c1 conjI[OF c2 conjI[OF c3 conjI[OF c4 conjI[OF c5 c6]]]]])
qed

text \<open>
  The annotation \<open>required,\<close> splits into \<open>required\<close> and the empty string, whose key is
  neither \<open>name\<close> nor \<open>required\<close>; construction succeeds all the same.
\<close>

theorem lookAtTag_empty_key_counterexample:
  "Split (CHR '','') ''required,'' = [''required'', []] \<and>
   keyValue (TrimLeft [] (CHR '' '')) = ([], []) \<and>
   NewParser refX [TPtr (TStruct [] [fooTrailingComma])] fooZeroStore
     = Inr [mkSpec fooTrailingComma ''foo'' [] False True False False]"
  by code_simp

theorem lookAtTag_tokens_witness:
  "lookAtTag ''name:x, required'' (newSpec \<lparr>root = 0, pfields = []\<rparr> fooNamed)
     = Inr (mkSpec fooNamed ''x'' [] False True False False) \<and>
   list_all recognised (tagTokens ''name:x, required'') \<and>
   walker \<lparr>root = 0, pfields = []\<rparr> fooNamed []
     = (Some (mkSpec fooNamed ''x'' [] False True False False), False, None) \<and>
   name (mkSpec fooNamed ''x'' [] False True False False)
     = nameAfter (tagTokens (tag_env (Tag fooNamed))) (ToLower (Name fooNamed))"
proof -
  have a: "lookAtTag ''name:x, required'' (newSpec \<lparr>root = 0, pfields = []\<rparr> fooNamed)
     = Inr (mkSpec fooNamed ''x'' [] False True False False)" by code_simp
  have b: "walker \<lparr>root = 0, pfields = []\<rparr> fooNamed []
     = (Some (mkSpec fooNamed ''x'' [] False True False False), False, None)" by code_simp
  from a b lookAtTag_tokens[of "''name:x, required''" "newSpec \<lparr>root = 0, pfields = []\<rparr> fooNamed"
      "mkSpec fooNamed ''x'' [] False True False False" undefined fooNamed "\<lparr>root = 0, pfields = []\<rparr>" "[]"
      "mkSpec fooNamed ''x'' [] False True False False" False]
  show ?thesis by blast
qed

section \<open>Default literals of a constructed schema\<close>

lemma NewParser_defaultVal:
  assumes "NewParser X dests st = Inr specs" and "sp \<in> set specs"
  shows "pfields (dest sp) \<noteq> [] \<and>
     defaultVal sp =
       (case val st (dest sp) of
          None \<Rightarrow> explicitDefault (last (pfields (dest sp)))
        | Some (t, v) \<Rightarrow>
            if isZero (readOnly (dest sp)) (t, v) = Inr True then explicitDefault (last (pfields (dest sp)))
            else rendering X t v)"
proof -
  from NewParser_slot[OF assms] obtain r f tn ex sp0 where
    w: "walker \<lparr>root = r, pfields = []\<rparr> f tn = (Some sp0, ex, None)" and
    a: "addDefault X st sp0 = Inr sp" by blast
  have d: "dest sp = Child \<lparr>root = r, pfields = []\<rparr> f"
    using addDefault_keeps(1)[OF a] walker_spec(1)[OF w] by simp
  then have l: "pfields (dest sp) \<noteq> []" "last (pfields (dest sp)) = f"
    by (simp_all add: Child_def)
  have e: "dest sp0 = dest sp" using addDefault_keeps(1)[OF a] by simp
  have x: "defaultVal sp0 = explicitDefault (last (pfields (dest sp)))"
    using walker_spec(4)[OF w] l by simp
  have "defaultVal sp =
       (case val st (dest sp) of
          None \<Rightarrow> explicitDefault (last (pfields (dest sp)))
        | Some (t, v) \<Rightarrow>
            if isZero (readOnly (dest sp)) (t, v) = Inr True then explicitDefault (last (pfields (dest sp)))
            else rendering X t v)"
    using addDefault_defaultVal[OF a] unfolding e x .
  with l show ?thesis by simp
qed


lemma withIndex_simps:
  "Name (withIndex f ix) = Name f" "Tag (withIndex f ix) = Tag f" "Type (withIndex f ix) = Type f"
  "Anonymous (withIndex f ix) = Anonymous f" "PkgPath (withIndex f ix) = PkgPath f"
  "Index (withIndex f ix) = ix"
  by (simp_all add: withIndex_def)

lemma walkFieldsImpl_walker_error:
  "walker dst (withIndex f (p @ [i])) (TypeName t) = (s, ex, Some err) \<Longrightarrow>
     walkFieldsImpl dst t p i (f # fs) = Inl err"
  by simp

lemma walk_required_with_default:
  assumes "tag_env (Tag f) \<noteq> ''-''" and "\<not> (Anonymous f \<and> Kind (Type f) = KStruct)"
    and "tag_default (Tag f) \<noteq> None"
    and "''required'' \<in> fst ` set (tagTokens (tag_env (Tag f)))"
  shows "\<exists>e. walkFieldsImpl dst t p i (f # fs) = Inl (Wrap (TypeName t @ ''.'' @ Name f @ '': '') e) \<and>
           (e = ErrorRequiredWithDefault \<or> (\<exists>k. e = Wrap (k @ ''-'') ErrorUnrecognizedTag))"
proof -
  let ?g = "withIndex f (p @ [i])"
  let ?sp = "newSpec dst ?g"
  have h: "hasDefault ?sp" using assms(3) by (simp add: newSpec_simps withIndex_simps)
  have "\<not> (\<exists>sp'. lookAtKeys (Split (CHR '','') (tag_env (Tag f))) ?sp = Inr sp')"
    using h assms(4) unfolding lookAtKeys_Inr_iff tagTokens_def by simp
  then obtain e where l: "lookAtKeys (Split (CHR '','') (tag_env (Tag f))) ?sp = Inl e"
    by (cases "lookAtKeys (Split (CHR '','') (tag_env (Tag f))) ?sp") auto
  from lookAtKeys_Inl[OF l]
  have k: "e = ErrorRequiredWithDefault \<or> (\<exists>k. e = Wrap (k @ ''-'') ErrorUnrecognizedTag)"
    by blast
  have "walker dst ?g (TypeName t) = (None, False, Some (Wrap (TypeName t @ ''.'' @ Name ?g @ '': '') e))"
    using walker_tag_error[of ?g dst e "TypeName t"] assms(1,2) l
    by (simp add: withIndex_simps lookAtTag_def)
  from walkFieldsImpl_walker_error[OF this] k show ?thesis by (simp add: withIndex_simps)
qed

lemma walk_multiple_with_default:
  assumes "tag_env (Tag f) \<noteq> ''-''" and "\<not> (Anonymous f \<and> Kind (Type f) = KStruct)"
    and "tag_default (Tag f) \<noteq> None"
    and "list_all recognised (tagTokens (tag_env (Tag f)))"
    and "''required'' \<notin> fst ` set (tagTokens (tag_env (Tag f)))"
    and "canParse (Type f) = (True, b, True)"
  shows "walkFieldsImpl dst t p i (f # fs)
           = Inl (Wrap (TypeName t @ ''.'' @ Name f @ '': '') ErrorDefaultValueForSlice)"
proof -
  let ?g = "withIndex f (p @ [i])"
  let ?sp = "newSpec dst ?g"
  have h: "hasDefault ?sp" using assms(3) by (simp add: newSpec_simps withIndex_simps)
  obtain sp2 where l: "lookAtTag (tag_env (Tag ?g)) ?sp = Inr sp2"
    using assms(4,5) lookAtKeys_Inr_iff[of "Split (CHR '','') (tag_env (Tag f))" ?sp]
    unfolding lookAtTag_def tagTokens_def by (simp add: withIndex_simps)
  have h2: "hasDefault sp2" using lookAtKeys_keeps[OF l[unfolded lookAtTag_def]] h by simp
  have "walker dst ?g (TypeName t)
          = (Some (sp2\<lparr>boolean := b, multiple := True\<rparr>), False,
             Some (Wrap (TypeName t @ ''.'' @ Name ?g @ '': '') ErrorDefaultValueForSlice))"
    using assms(1,2,6) l h2 unfolding walker_def by (simp add: Let_def withIndex_simps)
  from walkFieldsImpl_walker_error[OF this] show ?thesis by (simp add: withIndex_simps)
qed

text \<open>
  Claim C2, as amended. In every successfully constructed schema the default literal of a
  slot whose destination field holds a nonzero value at construction time is the rendering
  of that value (the result of \<open>MarshalText\<close> if the type has it, the generic rendering
  otherwise), whether or not the field declares a default; the declared default is the
  slot's literal only when the field holds its zero value or cannot be reached.
\<close>

theorem NewParser_default_literal:
  assumes "NewParser X dests st = Inr specs" and "sp \<in> set specs"
  shows "pfields (dest sp) \<noteq> [] \<and>
     defaultVal sp =
       (case val st (dest sp) of
          None \<Rightarrow> explicitDefault (last (pfields (dest sp)))
        | Some (t, v) \<Rightarrow>
            if isZero (readOnly (dest sp)) (t, v) = Inr True then explicitDefault (last (pfields (dest sp)))
            else rendering X t v)"
  using assms by (rule NewParser_defaultVal)

text \<open>
  The field \<open>Foo string `default:"abc"`\<close> set to \<open>xyz\<close> before construction gets the
  literal \<open>xyz\<close>, not the declared \<open>abc\<close>.
\<close>

theorem NewParser_default_literal_counterexample:
  "tag_default (Tag fooDeclared) = Some ''abc'' \<and>
   NewParser refX [TPtr (TStruct [] [fooDeclared])] fooDeclaredStore
     = Inr [mkSpec fooDeclared ''foo'' ''xyz'' False False False True]"
  by code_simp

theorem NewParser_default_literal_witness:
  "NewParser refX [TPtr (TStruct [] [fooDeclared])] fooDeclaredStore
     = Inr [mkSpec fooDeclared ''foo'' ''xyz'' False False False True] \<and>
   mkSpec fooDeclared ''foo'' ''xyz'' False False False True
     \<in> set [mkSpec fooDeclared ''foo'' ''xyz'' False False False True] \<and>
   defaultVal (mkSpec fooDeclared ''foo'' ''xyz'' False False False True)
     = rendering refX TString (VStr ''xyz'')"
proof -
  let ?s = "mkSpec fooDeclared ''foo'' ''xyz'' False False False True"
  have a: "NewParser refX [TPtr (TStruct [] [fooDeclared])] fooDeclaredStore = Inr [?s]"
    by code_simp
  have b: "?s \<in> set [?s]" by simp
  have v: "val fooDeclaredStore (dest ?s) = Some (TString, VStr ''xyz'')" by code_simp
  have z: "isZero (readOnly (dest ?s)) (TString, VStr ''xyz'') = Inr False" by code_simp
  from NewParser_default_literal[OF a b] v z a b show ?thesis by simp
qed

text \<open>
  Claim C3, as amended. In every successfully constructed schema no slot is both required
  and flagged as having a declared default, the flag being set exactly for the fields
  with a \<open>default\<close> tag: when the walk over a struct reaches a field, neither excluded
  nor an embedded struct, that declares a default and has a \<open>required\<close> token, it fails
  under the field's name, with the required-with-default error unless an unrecognised
  token comes first. A literal taken from a nonzero value already in the destination does
  not make construction fail.
\<close>

theorem NewParser_required_without_declared_default:
  "(NewParser X dests st = Inr specs \<and> sp \<in> set specs \<longrightarrow>
      hasDefault sp = (tag_default (Tag (last (pfields (dest sp)))) \<noteq> None) \<and>
      \<not> (required sp \<and> hasDefault sp)) \<and>
   (tag_env (Tag f) \<noteq> ''-'' \<and> \<not> (Anonymous f \<and> Kind (Type f) = KStruct) \<and>
    tag_default (Tag f) \<noteq> None \<and> ''required'' \<in> fst ` set (tagTokens (tag_env (Tag f))) \<longrightarrow>
      (\<exists>e. walkFieldsImpl dst t p i (f # fs) = Inl (Wrap (TypeName t @ ''.'' @ Name f @ '': '') e) \<and>
           (e = ErrorRequiredWithDefault \<or> (\<exists>k. e = Wrap (k @ ''-'') ErrorUnrecognizedTag))))"
proof (rule conjI)
  show "NewParser X dests st = Inr specs \<and> sp \<in> set specs \<longrightarrow>
      hasDefault sp = (tag_default (Tag (last (pfields (dest sp)))) \<noteq> None) \<and>
      \<not> (required sp \<and> hasDefault sp)"
    using NewParser_hasDefault(1,2)[of X dests st specs sp] by blast
  show "tag_env (Tag f) \<noteq> ''-'' \<and> \<not> (Anonymous f \<and> Kind (Type f) = KStruct) \<and>
    tag_default (Tag f) \<noteq> None \<and> ''required'' \<in> fst ` set (tagTokens (tag_env (Tag f))) \<longrightarrow>
      (\<exists>e. walkFieldsImpl dst t p i (f # fs) = Inl (Wrap (TypeName t @ ''.'' @ Name f @ '': '') e) \<and>
           (e = ErrorRequiredWithDefault \<or> (\<exists>k. e = Wrap (k @ ''-'') ErrorUnrecognizedTag)))"
    using walk_required_with_default[of f dst t p i fs] by blast
qed

text \<open>
  The field \<open>Foo int `env:"required"`\<close> set to 5 before construction yields a slot that is
  required and carries the literal \<open>5\<close>.
\<close>

theorem NewParser_required_with_preset_counterexample:
  "NewParser refX [TPtr (TStruct [] [fooRequired])] fooRequiredStore
     = Inr [mkSpec fooRequired ''foo'' ''5'' False True False False] \<and>
   required (mkSpec fooRequired ''foo'' ''5'' False True False False) \<and>
   defaultVal (mkSpec fooRequired ''foo'' ''5'' False True False False) \<noteq> []"
  by code_simp

theorem NewParser_required_without_declared_default_witness:
  "NewParser refX [TPtr (TStruct [] [fooRequired])] fooRequiredStore
     = Inr [mkSpec fooRequired ''foo'' ''5'' False True False False] \<and>
   \<not> (required (mkSpec fooRequired ''foo'' ''5'' False True False False) \<and>
      hasDefault (mkSpec fooRequired ''foo'' ''5'' False True False False)) \<and>
   NewParser refX [TPtr (TStruct [] [aRequiredDefault])] fooZeroStore
     = Inl (Wrap ''.A: '' ErrorRequiredWithDefault) \<and>
   errorString (Wrap ''.A: '' ErrorRequiredWithDefault)
     = ''.A: '' @ [CHR 0x27] @ ''required'' @ [CHR 0x27]
         @ '' cannot be used when a default value is specified''"
proof -
  let ?s = "mkSpec fooRequired ''foo'' ''5'' False True False False"
  have a: "NewParser refX [TPtr (TStruct [] [fooRequired])] fooRequiredStore = Inr [?s]"
    by code_simp
  have b: "?s \<in> set [?s]" by simp
  have c: "NewParser refX [TPtr (TStruct [] [aRequiredDefault])] fooZeroStore
     = Inl (Wrap ''.A: '' ErrorRequiredWithDefault)" by code_simp
  have d: "errorString (Wrap ''.A: '' ErrorRequiredWithDefault)
     = ''.A: '' @ [CHR 0x27] @ ''required'' @ [CHR 0x27]
         @ '' cannot be used when a default value is specified''" by code_simp
  from NewParser_required_without_declared_default[of refX "[TPtr (TStruct [] [fooRequired])]"
      fooRequiredStore "[?s]" ?s] a b
  have "\<not> (required ?s \<and> hasDefault ?s)" by blast
  with a c d show ?thesis by blast
qed

lemma NewParser_multiple_defaultVal:
  assumes "NewParser X dests st = Inr specs" and "sp \<in> set specs" and "multiple sp"
  shows "\<not> hasDefault sp \<and> tag_default (Tag (last (pfields (dest sp)))) = None \<and>
     defaultVal sp =
       (case val st (dest sp) of
          None \<Rightarrow> []
        | Some (t, v) \<Rightarrow> if isZero (readOnly (dest sp)) (t, v) = Inr True then [] else rendering X t v)"
proof -
  have h: "\<not> hasDefault sp" using NewParser_hasDefault(3)[OF assms(1,2)] assms(3) by simp
  then have n: "tag_default (Tag (last (pfields (dest sp)))) = None"
    using NewParser_hasDefault(1)[OF assms(1,2)] by simp
  then have x: "explicitDefault (last (pfields (dest sp))) = []"
    by (simp add: explicitDefault_def)
  from NewParser_defaultVal[OF assms(1,2)] h n show ?thesis unfolding x by simp
qed

text \<open>
  Claim C4, as amended. In every successfully constructed schema a multi-value slot has no
  declared default: when the walk over a struct reaches a multi-value field, neither
  excluded nor an embedded struct, with an accepted annotation and a \<open>default\<close> tag, it
  fails with the \<open>default values are not supported for slice fields\<close> error under the
  field's name. The default literal of a multi-value slot is empty when the slice in the
  destination is nil (or cannot be reached) and is the rendering of the slice otherwise.
\<close>

theorem NewParser_multiple_without_declared_default:
  "(NewParser X dests st = Inr specs \<and> sp \<in> set specs \<and> multiple sp \<longrightarrow>
      \<not> hasDefault sp \<and> tag_default (Tag (last (pfields (dest sp)))) = None \<and>
      defaultVal sp =
        (case val st (dest sp) of
           None \<Rightarrow> []
         | Some (t, v) \<Rightarrow> if isZero (readOnly (dest sp)) (t, v) = Inr True then [] else rendering X t v)) \<and>
   (tag_env (Tag f) \<noteq> ''-'' \<and> \<not> (Anonymous f \<and> Kind (Type f) = KStruct) \<and>
    tag_default (Tag f) \<noteq> None \<and> list_all recognised (tagTokens (tag_env (Tag f))) \<and>
    ''required'' \<notin> fst ` set (tagTokens (tag_env (Tag f))) \<and>
    canParse (Type f) = (True, b, True) \<longrightarrow>
      walkFieldsImpl dst t p i (f # fs)
        = Inl (Wrap (TypeName t @ ''.'' @ Name f @ '': '') ErrorDefaultValueForSlice))"
proof (rule conjI)
  show "NewParser X dests st = Inr specs \<and> sp \<in> set specs \<and> multiple sp \<longrightarrow>
      \<not> hasDefault sp \<and> tag_default (Tag (last (pfields (dest sp)))) = None \<and>
      defaultVal sp =
        (case val st (dest sp) of
           None \<Rightarrow> []
         | Some (t, v) \<Rightarrow> if isZero (readOnly (dest sp)) (t, v) = Inr True then [] else rendering X t v)"
    using NewParser_multiple_defaultVal[of X dests st specs sp] by blast
  show "tag_env (Tag f) \<noteq> ''-'' \<and> \<not> (Anonymous f \<and> Kind (Type f) = KStruct) \<and>
    tag_default (Tag f) \<noteq> None \<and> list_all recognised (tagTokens (tag_env (Tag f))) \<and>
    ''required'' \<notin> fst ` set (tagTokens (tag_env (Tag f))) \<and>
    canParse (Type f) = (True, b, True) \<longrightarrow>
      walkFieldsImpl dst t p i (f # fs)
        = Inl (Wrap (TypeName t @ ''.'' @ Name f @ '': '') ErrorDefaultValueForSlice)"
    using walk_multiple_with_default[of f b dst t p i fs] by blast
qed

text \<open>
  The field \<open>Foo []int\<close> set to \<open>[]int{42}\<close> before construction yields a multi-value
  slot with the literal \<open>[42]\<close>.
\<close>

theorem NewParser_multiple_with_preset_counterexample:
  "NewParser refX [TPtr (TStruct [] [fooSlice])] fooSliceStore
     = Inr [mkSpec fooSlice ''foo'' ''[42]'' True False False False] \<and>
   multiple (mkSpec fooSlice ''foo'' ''[42]'' True False False False) \<and>
   defaultVal (mkSpec fooSlice ''foo'' ''[42]'' True False False False) \<noteq> []"
  by code_simp

theorem NewParser_multiple_without_declared_default_witness:
  "NewParser refX [TPtr (TStruct [] [fooSlice])] fooSliceStore
     = Inr [mkSpec fooSlice ''foo'' ''[42]'' True False False False] \<and>
   multiple (mkSpec fooSlice ''foo'' ''[42]'' True False False False) \<and>
   \<not> hasDefault (mkSpec fooSlice ''foo'' ''[42]'' True False False False) \<and>
   NewParser refX [TPtr (TStruct [] [aSliceDefault])] fooZeroStore
     = Inl (Wrap ''.A: '' ErrorDefaultValueForSlice) \<and>
   errorString (Wrap ''.A: '' ErrorDefaultValueForSlice)
     = ''.A: default values are not supported for slice fields''"
proof -
  let ?s = "mkSpec fooSlice ''foo'' ''[42]'' True False False False"
  have a: "NewParser refX [TPtr (TStruct [] [fooSlice])] fooSliceStore = Inr [?s]"
    by code_simp
  have b: "?s \<in> set [?s]" by simp
  have c: "multiple ?s" by code_simp
  have d: "NewParser refX [TPtr (TStruct [] [aSliceDefault])] fooZeroStore
     = Inl (Wrap ''.A: '' ErrorDefaultValueForSlice)" by code_simp
  have e: "errorString (Wrap ''.A: '' ErrorDefaultValueForSlice)
     = ''.A: default values are not supported for slice fields''" by code_simp
  from NewParser_multiple_without_declared_default[of refX "[TPtr (TStruct [] [fooSlice])]"
      fooSliceStore "[?s]" ?s] a b c
  have "\<not> hasDefault ?s" by blast
  with a c d e show ?thesis by blast
qed

section \<open>The binding pass\<close>

text \<open>
  A step of the pass writes at most the cell of its own slot and changes neither the type
  of a cell nor which roots are nil.
\<close>

lemma ParseValue_frame:
  assumes "ParseValue X st d s = (e, st')"
  shows "nilRoot st' = nilRoot st" and "fst (cells st' l) = fst (cells st l)"
    and "l \<noteq> loc d \<Longrightarrow> cells st' l = cells st l"
  using assms unfolding ParseValue_def setCell_def val_def
  by (auto split: option.splits prod.splits if_splits)

lemma setSlice_frame:
  assumes "setSlice X st d vs = (e, st')"
  shows "nilRoot st' = nilRoot st" and "fst (cells st' l) = fst (cells st l)"
    and "l \<noteq> loc d \<Longrightarrow> cells st' l = cells st l"
  using assms unfolding setSlice_def setCell_def val_def
  by (auto split: option.splits prod.splits if_splits)

lemma captureEnvVar_absent:
  "env (name sp) = None \<Longrightarrow> captureEnvVar X env sp st = (None, st, False)"
  by (simp add: captureEnvVar_def)

lemma captureEnvVar_frame:
  assumes "captureEnvVar X env sp st = (e, st', b)"
  shows "nilRoot st' = nilRoot st" and "fst (cells st' l) = fst (cells st l)"
    and "l \<noteq> loc (dest sp) \<Longrightarrow> cells st' l = cells st l"
    and "e = None \<Longrightarrow> b = (env (name sp) \<noteq> None)"
  using assms unfolding captureEnvVar_def
  by (auto split: option.splits prod.splits sum.splits if_splits
      dest: ParseValue_frame setSlice_frame)


lemma captureEnvVars_frame:
  assumes "captureEnvVars X env specs st = (e, st', ps)"
  shows "nilRoot st' = nilRoot st" and "fst (cells st' l) = fst (cells st l)"
    and "(\<forall>sp \<in> set specs. loc (dest sp) = l \<longrightarrow> env (name sp) = None) \<Longrightarrow>
           cells st' l = cells st l"
    and "e = None \<Longrightarrow> zip specs ps = withPresence env specs"
  using assms
proof (induction specs arbitrary: st e st' ps)
  case Nil
  {
    case 1 then show ?case by simp
  next
    case 2 then show ?case by simp
  next
    case 3 then show ?case by simp
  next
    case 4 then show ?case by (simp add: withPresence_def)
  }
next
  case (Cons sp specs)
  {
    case 1
    obtain e1 st1 b where c: "captureEnvVar X env sp st = (e1, st1, b)"
      by (cases "captureEnvVar X env sp st") auto
    show ?case
    proof (cases e1)
      case None
      obtain e2 st2 bs where r: "captureEnvVars X env specs st1 = (e2, st2, bs)"
        by (cases "captureEnvVars X env specs st1") auto
      with 1 c None have "st' = st2" by simp
      with Cons.IH(1)[OF r] captureEnvVar_frame(1)[OF c] show ?thesis by simp
    next
      case (Some a)
      with 1 c have "st' = st1" by simp
      with captureEnvVar_frame(1)[OF c] show ?thesis by simp
    qed
  next
    case 2
    obtain e1 st1 b where c: "captureEnvVar X env sp st = (e1, st1, b)"
      by (cases "captureEnvVar X env sp st") auto
    show ?case
    proof (cases e1)
      case None
      obtain e2 st2 bs where r: "captureEnvVars X env specs st1 = (e2, st2, bs)"
        by (cases "captureEnvVars X env specs st1") auto
      with 2 c None have "st' = st2" by simp
      with Cons.IH(2)[OF r] captureEnvVar_frame(2)[OF c] show ?thesis by simp
    next
      case (Some a)
      with 2 c have "st' = st1" by simp
      with captureEnvVar_frame(2)[OF c] show ?thesis by simp
    qed
  next
    case 3
    obtain e1 st1 b where c: "captureEnvVar X env sp st = (e1, st1, b)"
      by (cases "captureEnvVar X env sp st") auto
    have k: "cells st1 l = cells st l"
    proof (cases "loc (dest sp) = l")
      case True
      with 3(1) have "env (name sp) = None" by simp
      from captureEnvVar_absent[of env sp X st] this c show ?thesis by simp
    next
      case False
      then show ?thesis using captureEnvVar_frame(3)[OF c, of l] by simp
    qed
    show ?case
    proof (cases e1)
      case None
      obtain e2 st2 bs where r: "captureEnvVars X env specs st1 = (e2, st2, bs)"
        by (cases "captureEnvVars X env specs st1") auto
      with 3(2) c None have "st' = st2" by simp
      with Cons.IH(3)[OF _ r] 3(1) k show ?thesis by simp
    next
      case (Some a)
      with 3(2) c have "st' = st1" by simp
      with k show ?thesis by simp
    qed
  next
    case 4
    obtain e1 st1 b where c: "captureEnvVar X env sp st = (e1, st1, b)"
      by (cases "captureEnvVar X env sp st") auto
    from 4 c have n: "e1 = None" by (cases e1) auto
    obtain e2 st2 bs where r: "captureEnvVars X env specs st1 = (e2, st2, bs)"
      by (cases "captureEnvVars X env specs st1") auto
    from 4 c n r have p: "ps = b # bs" "e2 = None" by simp_all
    from captureEnvVar_frame(4)[OF c n] Cons.IH(4)[OF p(2) r] p(1) show ?case
      by (simp add: withPresence_def)
  }
qed


lemma fillDefaults_frame:
  assumes "fillDefaults X sps st = (e, st')"
  shows "nilRoot st' = nilRoot st" and "fst (cells st' l) = fst (cells st l)"
    and "(\<forall>(sp, p) \<in> set sps. loc (dest sp) = l \<longrightarrow> p \<or> defaultVal sp = []) \<Longrightarrow>
           cells st' l = cells st l"
  using assms
proof (induction X sps st arbitrary: e st' rule: fillDefaults.induct)
  case (1 X st)
  {
    case 1 then show ?case by simp
  next
    case 2 then show ?case by simp
  next
    case 3 then show ?case by simp
  }
next
  case (2 X sp present rest st)
  obtain e1 st1 where pv: "ParseValue X st (dest sp) (defaultVal sp) = (e1, st1)"
    by (cases "ParseValue X st (dest sp) (defaultVal sp)") auto
  consider (skip) "present \<or> (\<not> required sp \<and> defaultVal sp = [])"
    | (req) "\<not> present" "required sp"
    | (dflt) "\<not> present" "\<not> required sp" "defaultVal sp \<noteq> []"
    by blast
  then have main: "nilRoot st' = nilRoot st \<and> fst (cells st' l) = fst (cells st l) \<and>
     ((\<forall>(sp, p) \<in> set ((sp, present) # rest). loc (dest sp) = l \<longrightarrow> p \<or> defaultVal sp = []) \<longrightarrow>
           cells st' l = cells st l)"
    if f: "fillDefaults X ((sp, present) # rest) st = (e, st')" for e st'
  proof cases
    case skip
    show ?thesis
    proof (cases present)
      case True
      with f have r: "fillDefaults X rest st = (e, st')" by simp
      from "2.IH"(1)[OF True r] "2.IH"(2)[OF True r] "2.IH"(3)[OF True _ r]
      show ?thesis by auto
    next
      case False
      with skip have a: "\<not> required sp" "\<not> defaultVal sp \<noteq> []" by auto
      with f False have r: "fillDefaults X rest st = (e, st')" by simp
      from "2.IH"(7)[OF False a r] "2.IH"(8)[OF False a r] "2.IH"(9)[OF False a _ r]
      show ?thesis by auto
    qed
  next
    case req
    with f have "st' = st" by simp
    then show ?thesis by simp
  next
    case dflt
    note fr = ParseValue_frame[OF pv]
    show ?thesis
    proof (cases e1)
      case None
      with f dflt pv have r: "fillDefaults X rest st1 = (e, st')" by simp
      from pv None have q: "(None, st1) = ParseValue X st (dest sp) (defaultVal sp)" by simp
      have k: "loc (dest sp) \<noteq> l \<Longrightarrow> cells st1 l = cells st l"
        using fr(3)[of l] by auto
      from "2.IH"(4)[OF dflt q refl r] "2.IH"(5)[OF dflt q refl r]
        "2.IH"(6)[OF dflt q refl _ r] fr(1) fr(2)[of l] k dflt
      show ?thesis by auto
    next
      case (Some a)
      have k: "loc (dest sp) \<noteq> l \<Longrightarrow> cells st1 l = cells st l"
        using fr(3)[of l] by auto
      from Some f dflt pv have "st' = st1" by simp
      with fr(1) fr(2)[of l] k dflt show ?thesis by auto
    qed
  qed
  {
    case 1 with main show ?case by blast
  next
    case 2 with main show ?case by blast
  next
    case 3 with main show ?case by blast
  }
qed


lemma process_after_capture:
  assumes "captureEnvVars X env specs st = (None, st1, ps)"
  shows "process X env specs st = fillDefaults X (withPresence env specs) st1"
  using assms captureEnvVars_frame(4)[OF assms refl] by (simp add: process_def)

lemma process_frame:
  assumes "\<forall>sp \<in> set specs. loc (dest sp) = l \<longrightarrow> env (name sp) = None \<and> defaultVal sp = []"
  shows "cells (snd (process X env specs st)) l = cells st l"
proof -
  obtain e st1 ps where c: "captureEnvVars X env specs st = (e, st1, ps)"
    by (cases "captureEnvVars X env specs st") auto
  have k: "cells st1 l = cells st l"
    using captureEnvVars_frame(3)[OF c, of l] assms by blast
  show ?thesis
  proof (cases e)
    case None
    obtain e2 st2 where f: "fillDefaults X (withPresence env specs) st1 = (e2, st2)"
      by (cases "fillDefaults X (withPresence env specs) st1") auto
    have "\<forall>(sp, p) \<in> set (withPresence env specs). loc (dest sp) = l \<longrightarrow> p \<or> defaultVal sp = []"
      using assms by (auto simp: withPresence_def)
    from fillDefaults_frame(3)[OF f this] k process_after_capture[of X env specs st st1 ps] c None f
    show ?thesis by simp
  next
    case (Some a)
    with c k show ?thesis by (simp add: process_def)
  qed
qed

lemma fillDefaults_append:
  "fillDefaults X (a @ b) st =
     (case fillDefaults X a st of (Some e, s) \<Rightarrow> (Some e, s) | (None, s) \<Rightarrow> fillDefaults X b s)"
proof (induction X a st rule: fillDefaults.induct)
  case (1 X st)
  show ?case by simp
next
  case (2 X sp present rest st)
  then show ?case by (simp split: prod.splits option.splits)
qed

lemma fillDefaults_required_aborts:
  "(sp, False) \<in> set sps \<Longrightarrow> required sp \<Longrightarrow> fst (fillDefaults X sps st) \<noteq> None"
proof (induction X sps st rule: fillDefaults.induct)
  case (1 X st)
  then show ?case by simp
next
  case (2 X s present rest st)
  then show ?case by (auto split: prod.splits option.splits)
qed

lemma process_required_aborts:
  assumes "sp \<in> set specs" and "env (name sp) = None" and "required sp"
  shows "fst (process X env specs st) \<noteq> None"
proof -
  obtain e st1 ps where c: "captureEnvVars X env specs st = (e, st1, ps)"
    by (cases "captureEnvVars X env specs st") auto
  show ?thesis
  proof (cases e)
    case None
    have "(sp, False) \<in> set (withPresence env specs)"
      using assms(1,2) by (force simp: withPresence_def)
    from fillDefaults_required_aborts[OF this assms(3)]
      process_after_capture[of X env specs st st1 ps] c None
    show ?thesis by simp
  next
    case (Some a)
    with c show ?thesis by (simp add: process_def)
  qed
qed

lemma sublist_name_prefix: "sublist n (a @ n @ b)"
  by (rule sublist_appendI)

text \<open>
  Claim C7, as amended. A binding pass against an environment that does not contain the
  key of a slot leaves the content of the slot's destination field as it was, whatever
  an earlier pass bound there, provided the slot, and every slot bound to the same field,
  has an empty default literal. The field is then never reset because the key is absent,
  whether the pass succeeds or aborts.
\<close>

theorem process_keeps_value_without_default:
  assumes "\<forall>sp \<in> set specs. loc (dest sp) = l \<longrightarrow> env (name sp) = None \<and> defaultVal sp = []"
  shows "cells (snd (process X env specs st)) l = cells st l"
  using assms by (rule process_frame)

text \<open>
  With \<open>Foo int `default:"0"`\<close> a first pass with \<open>foo=5\<close> binds 5, and a second pass
  against the empty environment replaces it by the default, here the zero value.
\<close>

theorem process_default_replaces_value_counterexample:
  "NewParser refX [TPtr (TStruct [] [fooDefaultZero])] fooZeroStore
     = Inr [mkSpec fooDefaultZero ''foo'' ''0'' False False False True] \<and>
   fst (process refX [''foo'' \<mapsto> ''5''] [mkSpec fooDefaultZero ''foo'' ''0'' False False False True]
          fooZeroStore) = None \<and>
   cells (snd (process refX [''foo'' \<mapsto> ''5''] [mkSpec fooDefaultZero ''foo'' ''0'' False False False True]
          fooZeroStore)) (0, [0]) = (TInt, VInt 5) \<and>
   cells (snd (process refX Map.empty [mkSpec fooDefaultZero ''foo'' ''0'' False False False True]
     (snd (process refX [''foo'' \<mapsto> ''5''] [mkSpec fooDefaultZero ''foo'' ''0'' False False False True]
          fooZeroStore)))) (0, [0]) = (TInt, VInt 0)"
  by code_simp

theorem process_keeps_value_without_default_witness:
  "cells (snd (process refX [''foo'' \<mapsto> ''5''] [mkSpec fooPlain ''foo'' [] False False False False]
          fooZeroStore)) (0, [0]) = (TInt, VInt 5) \<and>
   cells (snd (process refX Map.empty [mkSpec fooPlain ''foo'' [] False False False False]
     (snd (process refX [''foo'' \<mapsto> ''5''] [mkSpec fooPlain ''foo'' [] False False False False]
          fooZeroStore)))) (0, [0]) = (TInt, VInt 5)"
proof -
  let ?s = "mkSpec fooPlain ''foo'' [] False False False False"
  let ?st = "snd (process refX [''foo'' \<mapsto> ''5''] [?s] fooZeroStore)"
  have h: "\<forall>sp \<in> set [?s]. loc (dest sp) = (0, [0]) \<longrightarrow> Map.empty (name sp) = None \<and> defaultVal sp = []"
    by (simp add: mkSpec_def)
  have v: "cells ?st (0, [0]) = (TInt, VInt 5)" by code_simp
  from process_keeps_value_without_default[OF h, of refX ?st] v show ?thesis by simp
qed

lemma withPresence_absent:
  "env (name sp) = None \<Longrightarrow>
     withPresence env (pre @ sp # post) = withPresence env pre @ (sp, False) # withPresence env post"
  by (simp add: withPresence_def)

lemma val_setCell:
  "val st d = Some c \<Longrightarrow> val (setCell st d c') d = Some c'"
  unfolding val_def setCell_def by (simp split: if_splits)

lemma ParseValue_valid:
  "val st d = Some (t, v) \<Longrightarrow>
     ParseValue X st d s =
       (map_option External (snd (xParseValue X t (CanSet st d) v s)),
        setCell st d (t, fst (xParseValue X t (CanSet st d) v s)))"
  unfolding ParseValue_def by (simp split: prod.splits)

lemma process_absent_slot_reached:
  assumes cap: "captureEnvVars X env (pre @ sp # post) st = (None, st1, ps)"
    and absent: "env (name sp) = None"
    and pre: "fillDefaults X (withPresence env pre) st1 = (None, st2)"
  shows "(required sp \<longrightarrow>
            process X env (pre @ sp # post) st
              = (Some (Wrap (name sp @ '': '') ErrorFieldIsRequired), st2) \<and>
            sublist (name sp) (errorString (Wrap (name sp @ '': '') ErrorFieldIsRequired))) \<and>
         (\<not> required sp \<and> defaultVal sp \<noteq> [] \<longrightarrow>
            (\<forall>t v. val st2 (dest sp) = Some (t, v) \<longrightarrow>
               (case xParseValue X t (CanSet st2 (dest sp)) v (defaultVal sp) of
                  (v', None) \<Rightarrow>
                    process X env (pre @ sp # post) st
                      = fillDefaults X (withPresence env post) (setCell st2 (dest sp) (t, v')) \<and>
                    val (setCell st2 (dest sp) (t, v')) (dest sp) = Some (t, v')
                | (v', Some m) \<Rightarrow>
                    process X env (pre @ sp # post) st
                      = (Some (Wrap (''error processing default value for '' @ name sp @ '': '')
                                 (External m)),
                         setCell st2 (dest sp) (t, v')) \<and>
                    sublist (name sp)
                      (errorString (Wrap (''error processing default value for '' @ name sp @ '': '')
                                      (External m))))))"
    (is "?A \<and> (?H \<longrightarrow> (\<forall>t v. ?V t v \<longrightarrow> ?C t v))")
proof -
  have p: "process X env (pre @ sp # post) st
             = fillDefaults X ((sp, False) # withPresence env post) st2"
    using process_after_capture[OF cap] withPresence_absent[of env sp pre post] absent pre
    by (simp add: fillDefaults_append)
  have s1: "sublist (name sp) (errorString (Wrap (name sp @ '': '') ErrorFieldIsRequired))"
    using sublist_appendI[of "name sp" "[]"] by simp
  have s2: "sublist (name sp)
      (errorString (Wrap (''error processing default value for '' @ name sp @ '': '') (External m)))"
    for m
    using sublist_appendI[of "name sp" "''error processing default value for ''"] by simp
  have a: ?A using p s1 by simp
  have b: "?C t v"
    if n: "\<not> required sp" "defaultVal sp \<noteq> []" and v: "val st2 (dest sp) = Some (t, v)" for t v
  proof -
    obtain v' e where x: "xParseValue X t (CanSet st2 (dest sp)) v (defaultVal sp) = (v', e)"
      by (cases "xParseValue X t (CanSet st2 (dest sp)) v (defaultVal sp)") auto
    have pv: "ParseValue X st2 (dest sp) (defaultVal sp)
                = (map_option External e, setCell st2 (dest sp) (t, v'))"
      using ParseValue_valid[OF v, of X "defaultVal sp"] x by simp
    show ?thesis
    proof (cases e)
      case None
      with p n pv x val_setCell[OF v, of "(t, v')"] show ?thesis by simp
    next
      case (Some m)
      with p n pv x s2[of m] show ?thesis by simp
    qed
  qed
  have c: "?H \<longrightarrow> (\<forall>t v. ?V t v \<longrightarrow> ?C t v)"
  proof (intro impI allI)
    fix t v
    assume h: ?H and v: "?V t v"
    from h have n1: "\<not> required sp" and n2: "defaultVal sp \<noteq> []" by simp_all
    show "?C t v" by (rule b[OF n1 n2 v])
  qed
  show ?thesis by (rule conjI[OF a c])
qed

text \<open>
  Claim C1. A slot whose key is absent from the environment and which is required makes
  the whole pass abort. When the pass over the present slots has succeeded and the second
  loop has passed the slots before it, the pass stops at such a slot with the
  \<open>field is required\<close> error, whose text contains the slot's name. A slot whose key is
  absent, which is not required and carries a non-empty default literal has that literal
  converted into its destination: on success the destination holds the converted value and
  the loop goes on with the slots after it, on failure the pass aborts with an error whose
  text contains the slot's name.
\<close>

theorem process_absent_slot:
  assumes absent: "env (name sp) = None"
  shows "(required sp \<longrightarrow> fst (process X env (pre @ sp # post) st) \<noteq> None) \<and>
    (captureEnvVars X env (pre @ sp # post) st = (None, st1, ps) \<and>
     fillDefaults X (withPresence env pre) st1 = (None, st2) \<longrightarrow>
       (required sp \<longrightarrow>
            process X env (pre @ sp # post) st
              = (Some (Wrap (name sp @ '': '') ErrorFieldIsRequired), st2) \<and>
            sublist (name sp) (errorString (Wrap (name sp @ '': '') ErrorFieldIsRequired))) \<and>
       (\<not> required sp \<and> defaultVal sp \<noteq> [] \<longrightarrow>
            (\<forall>t v. val st2 (dest sp) = Some (t, v) \<longrightarrow>
               (case xParseValue X t (CanSet st2 (dest sp)) v (defaultVal sp) of
                  (v', None) \<Rightarrow>
                    process X env (pre @ sp # post) st
                      = fillDefaults X (withPresence env post) (setCell st2 (dest sp) (t, v')) \<and>
                    val (setCell st2 (dest sp) (t, v')) (dest sp) = Some (t, v')
                | (v', Some m) \<Rightarrow>
                    process X env (pre @ sp # post) st
                      = (Some (Wrap (''error processing default value for '' @ name sp @ '': '')
                                 (External m)),
                         setCell st2 (dest sp) (t, v')) \<and>
                    sublist (name sp)
                      (errorString (Wrap (''error processing default value for '' @ name sp @ '': '')
                                      (External m)))))))"
    (is "?A \<and> (?H \<longrightarrow> ?C)")
proof (rule conjI)
  show ?A using process_required_aborts[of sp "pre @ sp # post" env X st] absent by simp
next
  show "?H \<longrightarrow> ?C"
  proof
    assume h: ?H
    then have cap: "captureEnvVars X env (pre @ sp # post) st = (None, st1, ps)"
      and pre: "fillDefaults X (withPresence env pre) st1 = (None, st2)" by simp_all
    show ?C by (rule process_absent_slot_reached[OF cap absent pre])
  qed
qed

theorem process_absent_slot_witness:
  "Map.empty (name (mkSpec fieldB ''b'' [] False True False False)) = None \<and>
   required (mkSpec fieldB ''b'' [] False True False False) \<and>
   fst (captureEnvVars refX Map.empty
          [mkSpec fieldA ''a'' ''7'' False False False True,
           mkSpec fieldB ''b'' [] False True False False] abStore) = None \<and>
   fst (fillDefaults refX (withPresence Map.empty [mkSpec fieldA ''a'' ''7'' False False False True])
          (fst (snd (captureEnvVars refX Map.empty
             [mkSpec fieldA ''a'' ''7'' False False False True,
              mkSpec fieldB ''b'' [] False True False False] abStore)))) = None \<and>
   fst (process refX Map.empty
          [mkSpec fieldA ''a'' ''7'' False False False True,
           mkSpec fieldB ''b'' [] False True False False] abStore)
     = Some (Wrap ''b: '' ErrorFieldIsRequired)"
proof -
  let ?a = "mkSpec fieldA ''a'' ''7'' False False False True"
  let ?b = "mkSpec fieldB ''b'' [] False True False False"
  let ?c = "captureEnvVars refX Map.empty [?a, ?b] abStore"
  let ?f = "fillDefaults refX (withPresence Map.empty [?a]) (fst (snd ?c))"
  have n: "name ?b = ''b''" and r: "required ?b" by (simp_all add: mkSpec_def)
  have h1: "Map.empty (name ?b) = None" by simp
  have c: "fst ?c = None" by code_simp
  have f: "fst ?f = None" by code_simp
  have ce: "captureEnvVars refX Map.empty ([?a] @ ?b # []) abStore = (None, fst (snd ?c), snd (snd ?c))"
    using c by (simp add: prod_eq_iff)
  have fe: "?f = (None, snd ?f)" using f by (simp add: prod_eq_iff)
  from process_absent_slot[of Map.empty ?b refX "[?a]" "[]" abStore "fst (snd ?c)" "snd (snd ?c)"
      "snd ?f"] h1 ce fe r
  have "process refX Map.empty ([?a] @ ?b # []) abStore
          = (Some (Wrap (name ?b @ '': '') ErrorFieldIsRequired), snd ?f)" by blast
  then have "fst (process refX Map.empty [?a, ?b] abStore) = Some (Wrap ''b: '' ErrorFieldIsRequired)"
    using n by simp
  with h1 r c f show ?thesis by blast
qed

section \<open>Running a pass twice\<close>

lemma run_append:
  "run X (a @ b) st =
     (case run X a st of (Some e, s) \<Rightarrow> (Some e, s) | (None, s) \<Rightarrow> run X b s)"
proof (induction X a st rule: run.induct)
  case (1 X st)
  show ?case by simp
next
  case (2 X err as st)
  show ?case by simp
next
  case (3 X d s m as st)
  then show ?case by (simp split: prod.splits option.splits)
qed

lemma captureEnvVars_run:
  assumes "\<forall>sp \<in> set specs. \<not> multiple sp"
  shows "(case captureEnvVars X env specs st of (e, st', ps) \<Rightarrow> (e, st'))
           = run X (concat (map (captureAction env) specs)) st"
  using assms
proof (induction specs arbitrary: st)
  case Nil
  show ?case by simp
next
  case (Cons sp specs)
  then have m: "\<not> multiple sp" and r: "\<forall>sp \<in> set specs. \<not> multiple sp" by simp_all
  note ih = Cons.IH[OF r]
  show ?case
  proof (cases "env (name sp)")
    case None
    then show ?thesis using ih[of st]
      by (simp add: captureEnvVar_absent captureAction_def split: prod.splits)
  next
    case (Some raw)
    obtain e1 st1 where pv: "ParseValue X st (dest sp) raw = (e1, st1)"
      by (cases "ParseValue X st (dest sp) raw") auto
    show ?thesis
    proof (cases e1)
      case None
      with Some m pv have "captureEnvVar X env sp st = (None, st1, True)"
        by (simp add: captureEnvVar_def)
      then show ?thesis using ih[of st1] Some pv None
        by (simp add: captureAction_def split: prod.splits)
    next
      case (Some err)
      with \<open>env (name sp) = Some raw\<close> m pv
      have "captureEnvVar X env sp st
              = (Some (wrapf (''error processing environment variable '' @ name sp @ '': '') err),
                 st1, False)"
        by (simp add: captureEnvVar_def)
      then show ?thesis using \<open>env (name sp) = Some raw\<close> pv Some
        by (simp add: captureAction_def)
    qed
  qed
qed

lemma fillDefaults_run:
  "fillDefaults X (withPresence env specs) st = run X (concat (map (fillAction env) specs)) st"
proof (induction specs arbitrary: st)
  case Nil
  show ?case by (simp add: withPresence_def)
next
  case (Cons sp specs)
  have w: "withPresence env (sp # specs) = (sp, env (name sp) \<noteq> None) # withPresence env specs"
    by (simp add: withPresence_def)
  show ?case unfolding w using Cons.IH
    by (simp add: fillAction_def split: prod.splits option.splits)
qed

lemma process_run:
  assumes "\<forall>sp \<in> set specs. \<not> multiple sp"
  shows "process X env specs st = run X (passActions env specs) st"
proof -
  obtain e st1 ps where c: "captureEnvVars X env specs st = (e, st1, ps)"
    by (cases "captureEnvVars X env specs st") auto
  from captureEnvVars_run[OF assms, of X env st] c
  have r: "run X (concat (map (captureAction env) specs)) st = (e, st1)" by simp
  show ?thesis
  proof (cases e)
    case None
    with c r process_after_capture[of X env specs st st1 ps] show ?thesis
      by (simp add: passActions_def run_append fillDefaults_run)
  next
    case (Some a)
    with c r show ?thesis by (simp add: passActions_def run_append process_def)
  qed
qed


lemma run_frame:
  "run X acts st = (e, st') \<Longrightarrow>
     nilRoot st' = nilRoot st \<and> (\<forall>l. fst (cells st' l) = fst (cells st l))"
proof (induction X acts st arbitrary: e st' rule: run.induct)
  case (1 X st)
  then show ?case by simp
next
  case (2 X err as st)
  then show ?case by simp
next
  case (3 X d s m as st)
  obtain e1 st1 where pv: "ParseValue X st d s = (e1, st1)"
    by (cases "ParseValue X st d s") auto
  note fr = ParseValue_frame(1,2)[OF pv]
  show ?case
  proof (cases e1)
    case None
    with "3.prems" pv have r: "run X as st1 = (e, st')" by simp
    from pv None have q: "ParseValue X st d s = (None, st1)" by simp
    from "3.IH"[OF q[symmetric] refl r] fr show ?thesis by simp
  next
    case (Some a)
    with "3.prems" pv have "st' = st1" by simp
    with fr show ?thesis by simp
  qed
qed

lemma ParseValue_sim:
  assumes stable: "stableConverter X"
    and shape: "nilRoot A = nilRoot B" "\<forall>l. fst (cells A l) = fst (cells B l)"
    and pa: "ParseValue X A d s = (ea, A1)" and pb: "ParseValue X B d s = (eb, B1)"
  shows "ea = eb"
    and "ea = None \<Longrightarrow> cells A1 (loc d) = cells B1 (loc d)"
    and "ea \<noteq> None \<Longrightarrow>
           (cells A1 (loc d) = cells A (loc d) \<and> cells B1 (loc d) = cells B (loc d)) \<or>
           leftover X A B A1 B1 (loc d)"
proof -
  have v: "val A d = None \<longleftrightarrow> val B d = None" using shape(1) by (simp add: val_def)
  have cs: "CanSet A d = CanSet B d" using v by (simp add: CanSet_def)
  have main: "ea = eb \<and> (ea = None \<longrightarrow> cells A1 (loc d) = cells B1 (loc d)) \<and>
      (ea \<noteq> None \<longrightarrow>
           (cells A1 (loc d) = cells A (loc d) \<and> cells B1 (loc d) = cells B (loc d)) \<or>
           leftover X A B A1 B1 (loc d))"
  proof (cases "val A d")
    case None
    with v have "val B d = None" by simp
    with None pa pb show ?thesis by (auto simp: ParseValue_def)
  next
    case (Some ta)
    obtain t a where ta: "ta = (t, a)" by (cases ta) auto
    from Some v obtain tb where sb: "val B d = Some tb" by (cases "val B d") auto
    obtain t' b where tb: "tb = (t', b)" by (cases tb) auto
    from Some ta have ca: "cells A (loc d) = (t, a)" by (simp add: val_def split: if_splits)
    from sb tb have cb: "cells B (loc d) = (t', b)" by (simp add: val_def split: if_splits)
    from shape(2) ca cb have tt: "t' = t" by (metis fst_conv)
    let ?c = "CanSet A d"
    from stable have s1: "snd (xParseValue X t ?c a s) = snd (xParseValue X t ?c b s)"
      and s2: "snd (xParseValue X t ?c a s) = None \<Longrightarrow>
                 fst (xParseValue X t ?c a s) = fst (xParseValue X t ?c b s)"
      unfolding stableConverter_def by blast+
    have ra: "ea = map_option External (snd (xParseValue X t ?c a s))"
      "A1 = setCell A d (t, fst (xParseValue X t ?c a s))"
      using pa ParseValue_valid[of A d t a X s] Some ta by simp_all
    have rb: "eb = map_option External (snd (xParseValue X t ?c b s))"
      "B1 = setCell B d (t, fst (xParseValue X t ?c b s))"
      using pb ParseValue_valid[of B d t b X s] sb tb tt cs by simp_all
    have e: "ea = eb" using ra(1) rb(1) s1 by simp
    have ok: "cells A1 (loc d) = cells B1 (loc d)" if "ea = None"
      using that ra rb s2 by (simp add: setCell_def)
    have lo: "leftover X A B A1 B1 (loc d)" if "ea \<noteq> None"
      unfolding leftover_def
      using that ra rb ca cb tt
      by (intro exI[of _ ?c] exI[of _ s]) (simp add: setCell_def)
    from e ok lo show ?thesis by blast
  qed
  from main show "ea = eb"
    and "ea = None \<Longrightarrow> cells A1 (loc d) = cells B1 (loc d)"
    and "ea \<noteq> None \<Longrightarrow>
           (cells A1 (loc d) = cells A (loc d) \<and> cells B1 (loc d) = cells B (loc d)) \<or>
           leftover X A B A1 B1 (loc d)"
    by blast+
qed

lemma leftover_cong:
  "cells A l = cells A0 l \<Longrightarrow> cells B l = cells B0 l \<Longrightarrow>
     leftover X A B A' B' l = leftover X A0 B0 A' B' l"
  by (simp add: leftover_def)

lemma leftover_same:
  "cells A l = cells B l \<Longrightarrow> leftover X A B A' B' l \<Longrightarrow> cells A' l = cells B' l"
  by (auto simp: leftover_def)

lemma run_sim:
  assumes "stableConverter X"
    and "nilRoot A = nilRoot B" and "\<forall>l. fst (cells A l) = fst (cells B l)"
    and "run X acts A = (ea, A')" and "run X acts B = (eb, B')"
  shows "ea = eb \<and> related X A B A' B'"
  using assms(2-)
proof (induction acts arbitrary: A B)
  case Nil
  then show ?case by (simp add: related_def)
next
  case (Cons act acts)
  show ?case
  proof (cases act)
    case (Refuse err)
    with Cons.prems show ?thesis by (simp add: related_def)
  next
    case (Convert d s m)
    obtain e1 A1 where pa: "ParseValue X A d s = (e1, A1)"
      by (cases "ParseValue X A d s") auto
    obtain e2 B1 where pb: "ParseValue X B d s = (e2, B1)"
      by (cases "ParseValue X B d s") auto
    note sim = ParseValue_sim[OF assms(1) Cons.prems(1,2) pa pb]
    note fa = ParseValue_frame[OF pa] and fb = ParseValue_frame[OF pb]
    have e: "e2 = e1" using sim(1) by simp
    have off: "cells A1 l = cells A l \<and> cells B1 l = cells B l" if "l \<noteq> loc d" for l
      using fa(3)[of l] fb(3)[of l] that by simp
    show ?thesis
    proof (cases e1)
      case None
      from Cons.prems(3) Convert pa None have ra: "run X acts A1 = (ea, A')" by simp
      from Cons.prems(4) Convert pb None e have rb: "run X acts B1 = (eb, B')" by simp
      have sh: "nilRoot A1 = nilRoot B1" "\<forall>l. fst (cells A1 l) = fst (cells B1 l)"
        using fa(1,2) fb(1,2) Cons.prems(1,2) by simp_all
      from Cons.IH[OF sh ra rb] have ih: "ea = eb" "related X A1 B1 A' B'" by simp_all
      have on: "cells A1 (loc d) = cells B1 (loc d)" using sim(2) None by simp
      have "cells A' l = cells B' l \<or> (cells A' l = cells A l \<and> cells B' l = cells B l) \<or>
          leftover X A B A' B' l" for l
      proof (cases "l = loc d")
        case True
        from ih(2) have "cells A' l = cells B' l \<or>
            (cells A' l = cells A1 l \<and> cells B' l = cells B1 l) \<or> leftover X A1 B1 A' B' l"
          unfolding related_def by blast
        with on True leftover_same[of A1 l B1 X A' B'] show ?thesis by auto
      next
        case False
        from ih(2) have "cells A' l = cells B' l \<or>
            (cells A' l = cells A1 l \<and> cells B' l = cells B1 l) \<or> leftover X A1 B1 A' B' l"
          unfolding related_def by blast
        with off[OF False] leftover_cong[of A1 l A B1 B X A' B'] show ?thesis by auto
      qed
      with ih(1) show ?thesis unfolding related_def by blast
    next
      case (Some err)
      from Cons.prems(3) Convert pa Some have ra: "ea = Some (wrapf m err)" "A' = A1" by simp_all
      from Cons.prems(4) Convert pb Some e have rb: "eb = Some (wrapf m err)" "B' = B1" by simp_all
      have "cells A1 l = cells B1 l \<or> (cells A1 l = cells A l \<and> cells B1 l = cells B l) \<or>
          leftover X A B A1 B1 l" for l
      proof (cases "l = loc d")
        case True
        with sim(3) Some show ?thesis by auto
      next
        case False
        with off show ?thesis by simp
      qed
      with ra rb show ?thesis unfolding related_def by blast
    qed
  qed
qed

lemma run_idempotent:
  assumes "stableConverter X"
  shows "run X acts (snd (run X acts st)) = run X acts st"
proof -
  obtain e A' where r1: "run X acts st = (e, A')" by (cases "run X acts st") auto
  obtain e2 A'' where r2: "run X acts A' = (e2, A'')" by (cases "run X acts A'") auto
  from run_frame[OF r1] have sh: "nilRoot st = nilRoot A'" "\<forall>l. fst (cells st l) = fst (cells A' l)"
    by simp_all
  from run_sim[OF assms sh r1 r2] have e: "e = e2" and rel: "related X st A' A' A''" by simp_all
  have "cells A'' l = cells A' l" for l
  proof -
    from rel have "cells A' l = cells A'' l \<or> (cells A' l = cells st l \<and> cells A'' l = cells A' l) \<or>
          leftover X st A' A' A'' l" unfolding related_def by blast
    then show ?thesis
    proof (elim disjE)
      assume "leftover X st A' A' A'' l"
      then obtain c s where
        n: "snd (xParseValue X (fst (cells st l)) c (snd (cells st l)) s) \<noteq> None" and
        a: "cells A' l = (fst (cells st l), fst (xParseValue X (fst (cells st l)) c (snd (cells st l)) s))" and
        b: "cells A'' l = (fst (cells st l), fst (xParseValue X (fst (cells st l)) c (snd (cells A' l)) s))"
        unfolding leftover_def by blast
      from assms n have
        "fst (xParseValue X (fst (cells st l)) c
               (fst (xParseValue X (fst (cells st l)) c (snd (cells st l)) s)) s)
           = fst (xParseValue X (fst (cells st l)) c (snd (cells st l)) s)"
        unfolding stableConverter_def by blast
      with a b show ?thesis by simp
    qed simp_all
  qed
  then have c: "cells A'' = cells A'" by (rule ext)
  from run_frame[OF r2] have n: "nilRoot A'' = nilRoot A'" by simp
  have "A'' = A'" using c n by (cases A'', cases A') simp
  with r1 r2 e show ?thesis by simp
qed

lemma refParsePrim_stable:
  "snd (refParsePrim t v s) = snd (refParsePrim t w s) \<and>
   (snd (refParsePrim t v s) = None \<longrightarrow> fst (refParsePrim t v s) = fst (refParsePrim t w s)) \<and>
   (snd (refParsePrim t v s) \<noteq> None \<longrightarrow> fst (refParsePrim t v s) = v)"
proof (cases t)
  case TBool
  then show ?thesis by simp
next
  case TInt
  then show ?thesis by (cases "parseInt s") simp_all
next
  case TString
  then show ?thesis by simp
next
  case TInterface
  then show ?thesis by simp
next
  case (TPtr x5)
  then show ?thesis by simp
next
  case (TSlice x6)
  then show ?thesis by simp
next
  case (TStruct x71 x72)
  then show ?thesis by simp
next
  case (TCustom x81 x82 x83)
  then show ?thesis by simp
qed


lemma refParseValue_ptr:
  "refParseValue (TPtr u) c v s =
     (VPtr (Some (fst (refParsePrim u (case v of VPtr (Some w) \<Rightarrow> w | _ \<Rightarrow> zero u) s))),
      snd (refParsePrim u (case v of VPtr (Some w) \<Rightarrow> w | _ \<Rightarrow> zero u) s))"
  by (simp split: prod.splits)

lemma refParseValue_stable:
  "snd (refParseValue t c v s) = snd (refParseValue t c w s) \<and>
   (snd (refParseValue t c v s) = None \<longrightarrow> fst (refParseValue t c v s) = fst (refParseValue t c w s)) \<and>
   (snd (refParseValue t c v s) \<noteq> None \<longrightarrow>
     fst (refParseValue t c (fst (refParseValue t c v s)) s) = fst (refParseValue t c v s))"
proof (cases "\<exists>u. t = TPtr u")
  case True
  then obtain u where t: "t = TPtr u" by blast
  let ?p = "case v of VPtr (Some w) \<Rightarrow> w | _ \<Rightarrow> zero u"
  let ?q = "case w of VPtr (Some w) \<Rightarrow> w | _ \<Rightarrow> zero u"
  note a = refParsePrim_stable[of u ?p s ?q]
  have b: "snd (refParsePrim u ?p s) \<noteq> None \<Longrightarrow>
      refParsePrim u (fst (refParsePrim u ?p s)) s = refParsePrim u ?p s"
    using a by simp
  show ?thesis unfolding t refParseValue_ptr using a b by simp
next
  case False
  then have e: "refParseValue t c x s = refParsePrim t x s" for x
    by (cases t) simp_all
  note a = refParsePrim_stable[of t v s w]
  show ?thesis unfolding e using a by simp
qed


lemma refX_stable: "stableConverter refX"
proof -
  have x: "xParseValue refX = refParseValue" by (simp add: refX_def)
  show ?thesis unfolding stableConverter_def x
    by (intro allI) (rule refParseValue_stable)
qed

text \<open>
  Claim C6, as amended. For every schema without multi-value slots and every environment,
  running the binding pass a second time on the destination the first run left gives the
  same outcome and leaves the destination as the first run left it, whether the pass
  succeeds or aborts, provided the converter of the scalar and boolean fields is stable:
  whether it fails and what it stores do not depend on what the field held before, and a
  content left by a failed conversion is left alone by a failure on the same text. The
  converters of booleans, numbers and strings are stable; a decoder of the field's own
  type need not be.
\<close>

theorem process_idempotent:
  assumes "stableConverter X" and "\<forall>sp \<in> set specs. \<not> multiple sp"
  shows "process X env specs (snd (process X env specs st)) = process X env specs st"
  using run_idempotent[OF assms(1), of "passActions env specs" st]
  by (simp add: process_run[OF assms(2)])

text \<open>
  A scalar slot whose type has a decoder of its own that appends the text to what the
  field holds: one pass over \<open>foo=x\<close> leaves \<open>[x]\<close>, a second pass over the same
  environment leaves \<open>[x, x]\<close>.
\<close>

theorem process_accumulating_decoder_counterexample:
  "NewParser accX [TPtr (TStruct [] [fooAppender])] fooAppenderStore
     = Inr [mkSpec fooAppender ''foo'' [] False False False False] \<and>
   multiple (mkSpec fooAppender ''foo'' [] False False False False) = False \<and>
   snd (cells (snd (process accX [''foo'' \<mapsto> ''x'']
                      [mkSpec fooAppender ''foo'' [] False False False False] fooAppenderStore))
          (0, [0]))
     = VSlice (Some [VStr ''x'']) \<and>
   snd (cells (snd (process accX [''foo'' \<mapsto> ''x'']
                      [mkSpec fooAppender ''foo'' [] False False False False]
                      (snd (process accX [''foo'' \<mapsto> ''x'']
                              [mkSpec fooAppender ''foo'' [] False False False False]
                              fooAppenderStore))))
          (0, [0]))
     = VSlice (Some [VStr ''x'', VStr ''x''])"
  by code_simp

theorem process_idempotent_witness:
  "process refX [''foo'' \<mapsto> ''5''] [mkSpec fooPlain ''foo'' [] False False False False]
     (snd (process refX [''foo'' \<mapsto> ''5''] [mkSpec fooPlain ''foo'' [] False False False False]
             fooZeroStore))
   = process refX [''foo'' \<mapsto> ''5''] [mkSpec fooPlain ''foo'' [] False False False False] fooZeroStore \<and>
   cells (snd (process refX [''foo'' \<mapsto> ''5''] [mkSpec fooPlain ''foo'' [] False False False False]
             fooZeroStore)) (0, [0]) = (TInt, VInt 5)"
proof -
  let ?s = "mkSpec fooPlain ''foo'' [] False False False False"
  have h: "\<forall>sp \<in> set [?s]. \<not> multiple sp" by (simp add: mkSpec_def)
  have v: "cells (snd (process refX [''foo'' \<mapsto> ''5''] [?s] fooZeroStore)) (0, [0]) = (TInt, VInt 5)"
    by code_simp
  from process_idempotent[OF refX_stable h, of "[''foo'' \<mapsto> ''5'']" fooZeroStore] v
  show ?thesis by simp
qed

section \<open>Multi-value slots\<close>

lemma appendValues_Some:
  assumes "\<forall>s \<in> set vs. snd (xParseValue X elem True (zero elem) s) = None"
  shows "appendValues X elem ptr (VSlice (Some xs)) vs
           = (None, VSlice (Some (xs @ map (converted X ptr elem) vs)))"
  using assms
proof (induction vs arbitrary: xs)
  case Nil
  show ?case by simp
next
  case (Cons s vs)
  obtain v e where x: "xParseValue X elem True (zero elem) s = (v, e)"
    by (cases "xParseValue X elem True (zero elem) s") auto
  with Cons.prems have e: "e = None" by simp
  have c: "converted X ptr elem s = (if ptr then VPtr (Some v) else v)"
    using x by (simp add: converted_def)
  from Cons.prems have r: "\<forall>s \<in> set vs. snd (xParseValue X elem True (zero elem) s) = None"
    by simp
  show ?case using x e c Cons.IH[OF r, of "xs @ [converted X ptr elem s]"] by simp
qed

lemma appendValues_all:
  assumes "\<forall>s \<in> set vs. snd (xParseValue X elem True (zero elem) s) = None"
  shows "appendValues X elem ptr (VSlice (if old = None then None else Some [])) vs
           = (None, replaced old (map (converted X ptr elem) vs))"
proof (cases vs)
  case Nil
  then show ?thesis by (cases old) (simp_all add: replaced_def)
next
  case (Cons s rest)
  obtain v e where x: "xParseValue X elem True (zero elem) s = (v, e)"
    by (cases "xParseValue X elem True (zero elem) s") auto
  with assms Cons have e: "e = None" by simp
  have c: "converted X ptr elem s = (if ptr then VPtr (Some v) else v)"
    using x by (simp add: converted_def)
  from assms Cons have r: "\<forall>s \<in> set rest. snd (xParseValue X elem True (zero elem) s) = None"
    by simp
  show ?thesis using Cons x e c appendValues_Some[OF r, of ptr "[converted X ptr elem s]"]
    by (cases old) (simp_all add: replaced_def)
qed

lemma setSlice_replaces:
  assumes "val st d = Some (t, VSlice old)" and "CanSet st d"
    and "sliceTarget t = Some (ptr, elem)"
    and "\<forall>s \<in> set parts. snd (xParseValue X elem True (zero elem) s) = None"
  shows "setSlice X st d parts
           = (None, setCell st d (t, replaced old (map (converted X ptr elem) parts)))"
proof -
  from assms(3) obtain e0 where e0: "Elem t = Some e0"
    and pe: "(if Kind e0 = KPtr \<and> \<not> Implements e0 then (True, Elem e0) else (False, Some e0))
               = (ptr, Some elem)"
    unfolding sliceTarget_def by (auto split: option.splits if_splits)
  have n: "(if old = None then Some (VSlice old) else SetLen0 (VSlice old))
             = Some (VSlice (if old = None then None else Some []))"
    by simp
  show ?thesis
    unfolding setSlice_def
    using assms(1,2) e0 pe n appendValues_all[OF assms(4), of ptr old]
    by simp
qed

lemma sliceItems_replaced: "sliceItems (replaced old items) = items"
  by (cases items; cases old) (simp_all add: replaced_def)


lemma captureEnvVars_Cons_ok:
  assumes "captureEnvVars X env (sp # b) st = (None, st', ps)"
  shows "\<exists>sb p pb. captureEnvVar X env sp st = (None, sb, p) \<and>
            captureEnvVars X env b sb = (None, st', pb)"
proof -
  obtain e1 s1 p where c: "captureEnvVar X env sp st = (e1, s1, p)"
    by (cases "captureEnvVar X env sp st") auto
  from assms c have n: "e1 = None" by (cases e1) auto
  obtain e2 s2 pb where r: "captureEnvVars X env b s1 = (e2, s2, pb)"
    by (cases "captureEnvVars X env b s1") auto
  from assms c n r have "e2 = None" "s2 = st'" by simp_all
  with c n r show ?thesis by blast
qed

lemma captureEnvVars_append_ok:
  "captureEnvVars X env (a @ b) st = (None, st', ps) \<Longrightarrow>
     \<exists>sa pa pb. captureEnvVars X env a st = (None, sa, pa) \<and>
        captureEnvVars X env b sa = (None, st', pb)"
proof (induction a arbitrary: st ps)
  case Nil
  then show ?case by simp
next
  case (Cons sp a)
  from captureEnvVars_Cons_ok[of X env sp "a @ b" st st' ps] Cons.prems
  obtain sb p pb where c: "captureEnvVar X env sp st = (None, sb, p)"
    and r: "captureEnvVars X env (a @ b) sb = (None, st', pb)" by auto
  from Cons.IH[OF r] obtain sa pa pc where
    "captureEnvVars X env a sb = (None, sa, pa)" "captureEnvVars X env b sa = (None, st', pc)"
    by blast
  with c show ?case by simp
qed

lemma captureEnvVar_multiple:
  assumes "multiple sp" and "env (name sp) = Some raw" and "fst (xCsvRead X raw) = Inr parts"
    and "val st (dest sp) = Some (t, VSlice old)" and "CanSet st (dest sp)"
    and "sliceTarget t = Some (ptr, elem)"
    and "\<forall>s \<in> set parts. snd (xParseValue X elem True (zero elem) s) = None"
  shows "captureEnvVar X env sp st
           = (None, setCell st (dest sp) (t, replaced old (map (converted X ptr elem) parts)), True)"
  using assms(1-3) setSlice_replaces[OF assms(4-7)]
  by (simp add: captureEnvVar_def)

text \<open>
  Claim C5. For every multi-value slot whose key is present in the environment, whose
  value the reader splits into parts and whose parts all convert, binding the slot into a
  settable slice leaves there exactly the converted parts, in order, whatever the slice
  held before; and when no other slot of the schema is bound to the same field, that is
  what the field holds after a successful pass. Binding \<open>foo=1,2,3\<close> into a field holding
  \<open>[42]\<close> yields \<open>[1,2,3]\<close>.
\<close>

theorem multiple_slot_replaced:
  assumes "multiple sp" and "env (name sp) = Some raw" and "fst (xCsvRead X raw) = Inr parts"
    and "val st (dest sp) = Some (t, VSlice old)" and "CanSet st (dest sp)"
    and "sliceTarget t = Some (ptr, elem)"
    and "\<forall>s \<in> set parts. snd (xParseValue X elem True (zero elem) s) = None"
  shows "captureEnvVar X env sp st
           = (None, setCell st (dest sp) (t, replaced old (map (converted X ptr elem) parts)), True) \<and>
         sliceItems (replaced old (map (converted X ptr elem) parts))
           = map (converted X ptr elem) parts \<and>
         ((\<forall>s' \<in> set (pre @ post). loc (dest s') \<noteq> loc (dest sp)) \<and>
          process X env (pre @ sp # post) st = (None, st') \<longrightarrow>
            cells st' (loc (dest sp)) = (t, replaced old (map (converted X ptr elem) parts)))"
    (is "?A \<and> ?B \<and> (?H \<longrightarrow> ?C)")
proof (intro conjI impI)
  show ?A using captureEnvVar_multiple[of sp env raw X parts st t old ptr elem] assms by blast
  show ?B by (rule sliceItems_replaced)
  assume h: ?H
  let ?l = "loc (dest sp)"
  let ?v = "replaced old (map (converted X ptr elem) parts)"
  from h have other: "\<forall>s' \<in> set (pre @ post). loc (dest s') \<noteq> ?l"
    and pr: "process X env (pre @ sp # post) st = (None, st')" by simp_all
  obtain e1 st1 ps where c: "captureEnvVars X env (pre @ sp # post) st = (e1, st1, ps)"
    by (cases "captureEnvVars X env (pre @ sp # post) st") auto
  from pr c have e1: "e1 = None" by (cases e1) (simp_all add: process_def)
  from c e1 have c': "captureEnvVars X env (pre @ sp # post) st = (None, st1, ps)" by simp
  from process_after_capture[OF c'] pr
  have f: "fillDefaults X (withPresence env (pre @ sp # post)) st1 = (None, st')" by simp
  from captureEnvVars_append_ok[OF c'] obtain sa pa pb where
    ca: "captureEnvVars X env pre st = (None, sa, pa)" and
    cb: "captureEnvVars X env (sp # post) sa = (None, st1, pb)" by blast
  from captureEnvVars_Cons_ok[OF cb] obtain sb p pc where
    cs: "captureEnvVar X env sp sa = (None, sb, p)" and
    cp: "captureEnvVars X env post sb = (None, st1, pc)" by blast
  have ka: "cells sa ?l = cells st ?l"
    using captureEnvVars_frame(3)[OF ca, of ?l] other by simp
  have na: "nilRoot sa = nilRoot st" by (rule captureEnvVars_frame(1)[OF ca])
  from assms(4) ka na have va: "val sa (dest sp) = Some (t, VSlice old)"
    by (simp add: val_def split: if_splits)
  from assms(4,5) va have sa: "CanSet sa (dest sp)" by (simp add: CanSet_def)
  from captureEnvVar_multiple[of sp env raw X parts sa t old ptr elem] assms(1-3) va sa assms(6,7) cs
  have sb: "sb = setCell sa (dest sp) (t, ?v)" by simp
  then have kb: "cells sb ?l = (t, ?v)" by (simp add: setCell_def)
  have kc: "cells st1 ?l = cells sb ?l"
    using captureEnvVars_frame(3)[OF cp, of ?l] other by simp
  have "\<forall>(s', q) \<in> set (withPresence env (pre @ sp # post)).
          loc (dest s') = ?l \<longrightarrow> q \<or> defaultVal s' = []"
    using other assms(2) by (auto simp: withPresence_def)
  from fillDefaults_frame(3)[OF f this] kc kb show ?C by simp
qed

theorem multiple_slot_replaced_witness:
  "captureEnvVar refX [''foo'' \<mapsto> ''1,2,3''] (mkSpec fooSlice ''foo'' ''[42]'' True False False False)
     fooSliceStore
     = (None,
        setCell fooSliceStore (dest (mkSpec fooSlice ''foo'' ''[42]'' True False False False))
          (TSlice TInt,
           replaced (Some [VInt 42]) (map (converted refX False TInt) [''1'', ''2'', ''3''])),
        True) \<and>
   replaced (Some [VInt 42]) (map (converted refX False TInt) [''1'', ''2'', ''3''])
     = VSlice (Some [VInt 1, VInt 2, VInt 3]) \<and>
   cells (snd (process refX [''foo'' \<mapsto> ''1,2,3'']
                 [mkSpec fooSlice ''foo'' ''[42]'' True False False False] fooSliceStore)) (0, [0])
     = (TSlice TInt, VSlice (Some [VInt 1, VInt 2, VInt 3]))"
proof -
  let ?s = "mkSpec fooSlice ''foo'' ''[42]'' True False False False"
  let ?env = "[''foo'' \<mapsto> ''1,2,3'']"
  let ?p = "process refX ?env [?s] fooSliceStore"
  have a1: "multiple ?s" by (simp add: mkSpec_def)
  have a2: "?env (name ?s) = Some ''1,2,3''" by (simp add: mkSpec_def)
  have a3: "fst (xCsvRead refX ''1,2,3'') = Inr [''1'', ''2'', ''3'']" by code_simp
  have a4: "val fooSliceStore (dest ?s) = Some (TSlice TInt, VSlice (Some [VInt 42]))" by code_simp
  have a5: "CanSet fooSliceStore (dest ?s)" by code_simp
  have a6: "sliceTarget (TSlice TInt) = Some (False, TInt)" by code_simp
  have a7: "\<forall>s \<in> set [''1'', ''2'', ''3'']. snd (xParseValue refX TInt True (zero TInt) s) = None"
    by code_simp
  have r: "replaced (Some [VInt 42]) (map (converted refX False TInt) [''1'', ''2'', ''3''])
     = VSlice (Some [VInt 1, VInt 2, VInt 3])" by code_simp
  have l: "loc (dest ?s) = (0, [0])" by code_simp
  have f: "fst ?p = None" by code_simp
  then have pe: "process refX ?env ([] @ ?s # []) fooSliceStore = (None, snd ?p)"
    by (simp add: prod_eq_iff)
  have o: "\<forall>s' \<in> set ([] @ []). loc (dest s') \<noteq> loc (dest ?s)" by simp
  from multiple_slot_replaced[of ?s ?env "''1,2,3''" refX "[''1'', ''2'', ''3'']" fooSliceStore
      "TSlice TInt" "Some [VInt 42]" False TInt "[]" "[]" "snd ?p"] a1 a2 a3 a4 a5 a6 a7 o pe
  have "captureEnvVar refX ?env ?s fooSliceStore
     = (None,
        setCell fooSliceStore (dest ?s)
          (TSlice TInt,
           replaced (Some [VInt 42]) (map (converted refX False TInt) [''1'', ''2'', ''3''])),
        True)"
    and "cells (snd ?p) (loc (dest ?s))
           = (TSlice TInt, replaced (Some [VInt 42]) (map (converted refX False TInt) [''1'', ''2'', ''3'']))"
    by blast+
  with r l show ?thesis by simp
qed

text \<open>The first line of a value, for the reader of \<open>encoding/csv\<close>.\<close>

lemma normalizeNL_Cons: "c \<noteq> CHR 0x0D \<Longrightarrow> normalizeNL (c # r) = c # normalizeNL r"
  by (cases r) simp_all

lemma normalizeNL_line:
  "CHR 0x0D \<notin> set line \<Longrightarrow> normalizeNL (line @ CHR 0x0A # rest) = line @ CHR 0x0A # normalizeNL rest"
  by (induction line) (auto simp: normalizeNL_Cons)

lemma normalizeNL_plain: "CHR 0x0D \<notin> set line \<Longrightarrow> normalizeNL line = line"
  by (induction line) (auto simp: normalizeNL_Cons)

lemma csv_line_continues:
  "(CHR 0x0A \<notin> set s \<longrightarrow> csvFields s acc = (Inr r, u) \<longrightarrow>
      csvFields (s @ CHR 0x0A # rest) acc = (Inr r, rest))"
  "(CHR 0x0A \<notin> set s1 \<longrightarrow> csvPlain s1 f1 acc1 = (Inr r, u) \<longrightarrow>
      csvPlain (s1 @ CHR 0x0A # rest) f1 acc1 = (Inr r, rest))"
  "(CHR 0x0A \<notin> set s2 \<longrightarrow> csvQuoted s2 f2 acc2 = (Inr r, u) \<longrightarrow>
      csvQuoted (s2 @ CHR 0x0A # rest) f2 acc2 = (Inr r, rest))"
proof (induction s acc and s1 f1 acc1 and s2 f2 acc2 rule: csvFields_csvPlain_csvQuoted.induct)
  case (1 acc)
  show ?case by simp
next
  case (2 c r' acc)
  then show ?case by simp
next
  case (3 f acc)
  show ?case by simp
next
  case (4 c r' f acc)
  then show ?case by simp
next
  case (5 f acc)
  show ?case by simp
next
  case (6 c f acc)
  show ?case by simp
next
  case (7 c d r' f acc)
  then show ?case by simp
qed


lemma csvRead_skips_empty_line: "csvRead (CHR 0x0A # raw) = csvRead raw"
  by (simp add: csvRead_def normalizeNL_Cons)

lemma csvRead_first_line:
  assumes "CHR 0x0A \<notin> set line" and "CHR 0x0D \<notin> set line"
    and "fst (csvRead line) = Inr parts"
  shows "csvRead (line @ CHR 0x0A # rest) = (Inr parts, normalizeNL rest)"
proof -
  have d: "dropWhile (\<lambda>c. c = CHR 0x0A) line = line"
    using assms(1) by (cases line) auto
  have ne: "line \<noteq> []" using assms(3) by (auto simp: csvRead_def)
  obtain u where f: "csvFields line [] = (Inr parts, u)"
    using assms(2,3) d ne by (cases "csvFields line []") (simp add: csvRead_def normalizeNL_plain)
  have d2: "dropWhile (\<lambda>c. c = CHR 0x0A) (line @ CHR 0x0A # normalizeNL rest)
              = line @ CHR 0x0A # normalizeNL rest"
    using assms(1) ne by (cases line) auto
  from csv_line_continues(1)[of line "[]" parts u "normalizeNL rest"] assms(1) f
  have "csvFields (line @ CHR 0x0A # normalizeNL rest) [] = (Inr parts, normalizeNL rest)"
    by simp
  then show ?thesis
    using d2 by (simp add: csvRead_def normalizeNL_line[OF assms(2)])
qed

text \<open>
  Claim C10, as amended. For every multi-value slot only the first record of the
  environment value is parsed and bound. When the value starts with a line that is a
  record by itself (no newline or carriage return in it, and the reader accepts it),
  followed by a newline, the reader returns the parts of that line and leaves the rest
  unread; the slot is bound exactly as for the line alone, by \<open>setSlice\<close> on its parts,
  and what follows the newline produces neither an element nor an error. The reader skips
  empty lines before the record, so the record of a value that starts with newlines is
  its first line that is not empty.
\<close>

theorem multiple_slot_binds_first_line:
  assumes "multiple sp" and "xCsvRead X = csvRead"
    and "CHR 0x0A \<notin> set line" and "CHR 0x0D \<notin> set line"
    and "fst (csvRead line) = Inr parts"
    and "env (name sp) = Some (line @ CHR 0x0A # rest)"
  shows "xCsvRead X (line @ CHR 0x0A # rest) = (Inr parts, normalizeNL rest) \<and>
         captureEnvVar X env sp st = captureEnvVar X (env(name sp \<mapsto> line)) sp st \<and>
         fst (snd (captureEnvVar X env sp st)) = snd (setSlice X st (dest sp) parts) \<and>
         (fst (captureEnvVar X env sp st) = None) = (fst (setSlice X st (dest sp) parts) = None) \<and>
         xCsvRead X (CHR 0x0A # line) = xCsvRead X line"
proof -
  have r: "xCsvRead X (line @ CHR 0x0A # rest) = (Inr parts, normalizeNL rest)"
    using csvRead_first_line[OF assms(3-5)] assms(2) by simp
  have l: "fst (xCsvRead X line) = Inr parts" using assms(2,5) by simp
  obtain e s1 where s: "setSlice X st (dest sp) parts = (e, s1)"
    by (cases "setSlice X st (dest sp) parts") auto
  have a: "captureEnvVar X env sp st = captureEnvVar X (env(name sp \<mapsto> line)) sp st"
    using assms(1,6) r l by (simp add: captureEnvVar_def)
  have b: "fst (snd (captureEnvVar X env sp st)) = snd (setSlice X st (dest sp) parts) \<and>
         (fst (captureEnvVar X env sp st) = None) = (fst (setSlice X st (dest sp) parts) = None)"
    using assms(1,6) r s by (cases e) (simp_all add: captureEnvVar_def)
  have c: "xCsvRead X (CHR 0x0A # line) = xCsvRead X line"
    using assms(2) by (simp add: csvRead_skips_empty_line)
  from r a b c show ?thesis by blast
qed

text \<open>
  The value of \<open>foo\<close> is a newline and \<open>1,2\<close>: its first line is empty, and the
  text after it is bound, \<open>[1,2]\<close>.
\<close>

theorem leading_empty_line_counterexample:
  "fst (captureEnvVar refX [''foo'' \<mapsto> CHR 0x0A # ''1,2'']
          (mkSpec fooSlice ''foo'' ''[42]'' True False False False) fooSliceStore) = None \<and>
   cells (fst (snd (captureEnvVar refX [''foo'' \<mapsto> CHR 0x0A # ''1,2'']
          (mkSpec fooSlice ''foo'' ''[42]'' True False False False) fooSliceStore))) (0, [0])
     = (TSlice TInt, VSlice (Some [VInt 1, VInt 2]))"
  by code_simp

theorem multiple_slot_binds_first_line_witness:
  "xCsvRead refX (''1,'' @ [CHR 0x22] @ ''2'' @ [CHR 0x22] @ CHR 0x0A # ''x,y'')
     = (Inr [''1'', ''2''], ''x,y'') \<and>
   captureEnvVar refX [''foo'' \<mapsto> ''1,'' @ [CHR 0x22] @ ''2'' @ [CHR 0x22] @ CHR 0x0A # ''x,y'']
       (mkSpec fooSlice ''foo'' ''[42]'' True False False False) fooSliceStore
   = captureEnvVar refX [''foo'' \<mapsto> ''1,'' @ [CHR 0x22] @ ''2'' @ [CHR 0x22]]
       (mkSpec fooSlice ''foo'' ''[42]'' True False False False) fooSliceStore \<and>
   fst (captureEnvVar refX [''foo'' \<mapsto> ''1,'' @ [CHR 0x22] @ ''2'' @ [CHR 0x22] @ CHR 0x0A # ''x,y'']
       (mkSpec fooSlice ''foo'' ''[42]'' True False False False) fooSliceStore) = None \<and>
   cells (fst (snd (captureEnvVar refX
       [''foo'' \<mapsto> ''1,'' @ [CHR 0x22] @ ''2'' @ [CHR 0x22] @ CHR 0x0A # ''x,y'']
       (mkSpec fooSlice ''foo'' ''[42]'' True False False False) fooSliceStore))) (0, [0])
     = (TSlice TInt, VSlice (Some [VInt 1, VInt 2]))"
proof -
  let ?s = "mkSpec fooSlice ''foo'' ''[42]'' True False False False"
  let ?l = "''1,'' @ [CHR 0x22] @ ''2'' @ [CHR 0x22]"
  let ?env = "[''foo'' \<mapsto> ?l @ CHR 0x0A # ''x,y'']"
  have a1: "multiple ?s" by (simp add: mkSpec_def)
  have a2: "xCsvRead refX = csvRead" by (simp add: refX_def)
  have a3: "CHR 0x0A \<notin> set ?l" by simp
  have a4: "CHR 0x0D \<notin> set ?l" by simp
  have a5: "fst (csvRead ?l) = Inr [''1'', ''2'']" by code_simp
  have a6: "?env (name ?s) = Some (?l @ CHR 0x0A # ''x,y'')" by (simp add: mkSpec_def)
  have n: "normalizeNL ''x,y'' = ''x,y''" by code_simp
  have u: "?env(name ?s \<mapsto> ?l) = [''foo'' \<mapsto> ?l]" by (simp add: mkSpec_def)
  have c: "fst (captureEnvVar refX ?env ?s fooSliceStore) = None" by code_simp
  have d: "cells (fst (snd (captureEnvVar refX ?env ?s fooSliceStore))) (0, [0])
     = (TSlice TInt, VSlice (Some [VInt 1, VInt 2]))" by code_simp
  from a1 a2 a3 a4 a5 a6
    multiple_slot_binds_first_line[where sp = "?s" and X = refX and line = "?l"
      and parts = "[''1'', ''2'']" and env = "?env" and rest = "''x,y''" and st = fooSliceStore]
  have "xCsvRead refX (?l @ CHR 0x0A # ''x,y'') = (Inr [''1'', ''2''], normalizeNL ''x,y'')"
    and "captureEnvVar refX ?env ?s fooSliceStore
           = captureEnvVar refX (?env(name ?s \<mapsto> ?l)) ?s fooSliceStore"
    by blast+
  with n u c d show ?thesis by simp
qed

section \<open>Types with a decoder of their own\<close>

lemma exposesDecoder_cases:
  "exposesDecoder t \<Longrightarrow> (\<exists>n vr u. t = TCustom n vr u) \<or> (\<exists>n vr u. t = TPtr (TCustom n vr u))"
  by (induction t rule: exposesDecoder.induct) simp_all

lemma canParse_decoder: "exposesDecoder t \<Longrightarrow> canParse t = (True, False, False)"
  by (simp add: canParse_def)

lemma decoder_not_boolean: "exposesDecoder t \<Longrightarrow> \<not> isBoolean t"
  by (drule exposesDecoder_cases) auto

lemma decoder_convertible: "exposesDecoder t \<Longrightarrow> convertible t"
  by (drule exposesDecoder_cases) auto

lemma canParse_slice_of_decoders:
  assumes "exposesDecoder e"
  shows "canParse (TSlice e) = (True, False, True)"
  using decoder_not_boolean[OF assms] decoder_convertible[OF assms]
  by (simp add: canParse_def)

lemma sliceTarget_decoder:
  assumes "exposesDecoder e" and "Kind e = KPtr \<longrightarrow> Implements e"
  shows "sliceTarget (TSlice e) = Some (False, e)"
  using assms by (auto simp: sliceTarget_def)

lemma walker_decoder:
  assumes "tag_env (Tag f) \<noteq> ''-''" and "\<not> (Anonymous f \<and> Kind (Type f) = KStruct)"
    and "exposesDecoder (Type f)"
    and "lookAtTag (tag_env (Tag f)) (newSpec dst f) = Inr sp2"
  shows "walker dst f tn = (Some (sp2\<lparr>boolean := False, multiple := False\<rparr>), False, None)"
  using assms canParse_decoder[OF assms(3)] unfolding walker_def
  by (simp add: Let_def)

lemma walker_embedded:
  assumes "tag_env (Tag f) \<noteq> ''-''" and "Anonymous f" and "Kind (Type f) = KStruct"
  shows "walker dst f tn = (None, True, None)"
  using assms unfolding walker_def by (simp add: Let_def)

lemma captureEnvVar_scalar:
  assumes "\<not> multiple sp" and "env (name sp) = Some raw" and "val st (dest sp) = Some (t, v)"
  shows "captureEnvVar X env sp st =
     (map_option (\<lambda>m. Wrap (''error processing environment variable '' @ name sp @ '': '') (External m))
        (snd (xParseValue X t (CanSet st (dest sp)) v raw)),
      setCell st (dest sp) (t, fst (xParseValue X t (CanSet st (dest sp)) v raw)),
      snd (xParseValue X t (CanSet st (dest sp)) v raw) = None)"
proof -
  obtain v' e where x: "xParseValue X t (CanSet st (dest sp)) v raw = (v', e)"
    by (cases "xParseValue X t (CanSet st (dest sp)) v raw") auto
  show ?thesis
    using assms(1,2) ParseValue_valid[OF assms(3), of X raw] x
    by (cases e) (simp_all add: captureEnvVar_def)
qed

lemma walker_slice_of_decoders:
  assumes "tag_env (Tag g) \<noteq> ''-''" and "Type g = TSlice e" and "exposesDecoder e"
    and "tag_default (Tag g) = None"
    and "lookAtTag (tag_env (Tag g)) (newSpec dst g) = Inr sp3"
  shows "walker dst g tn = (Some (sp3\<lparr>boolean := False, multiple := True\<rparr>), False, None)"
proof -
  have k: "Kind (Type g) \<noteq> KStruct" using assms(2) by simp
  have c: "canParse (Type g) = (True, False, True)"
    using canParse_slice_of_decoders[OF assms(3)] assms(2) by simp
  have h: "\<not> hasDefault sp3"
    using lookAtKeys_keeps[OF assms(5)[unfolded lookAtTag_def]] assms(4)
    by (simp add: newSpec_simps)
  show ?thesis
    using assms(1,5) k c h unfolding walker_def by (simp add: Let_def)
qed

lemma NewParser_decoder_slot:
  assumes "NewParser X dests st = Inr specs" and "sp \<in> set specs"
    and "exposesDecoder (sp_typ sp)"
  shows "\<not> boolean sp" and "\<not> multiple sp"
    and "sp_typ sp = Type (last (pfields (dest sp)))"
proof -
  from NewParser_slot[OF assms(1,2)] obtain r f tn ex sp0 where
    w: "walker \<lparr>root = r, pfields = []\<rparr> f tn = (Some sp0, ex, None)" and
    a: "addDefault X st sp0 = Inr sp" by blast
  have t: "sp_typ sp = Type f" using addDefault_keeps(7)[OF a] walker_spec(2)[OF w] by simp
  have "dest sp = Child \<lparr>root = r, pfields = []\<rparr> f"
    using addDefault_keeps(1)[OF a] walker_spec(1)[OF w] by simp
  then have l: "last (pfields (dest sp)) = f" by (simp add: Child_def)
  have c: "canParse (Type f) = (True, boolean sp0, multiple sp0)" by (rule walker_spec(7)[OF w])
  have "canParse (Type f) = (True, False, False)"
    using canParse_decoder assms(3) t by simp
  with c have "\<not> boolean sp0" "\<not> multiple sp0" by simp_all
  then show "\<not> boolean sp" "\<not> multiple sp"
    using addDefault_keeps(3,5)[OF a] by simp_all
  show "sp_typ sp = Type (last (pfields (dest sp)))" using t l by simp
qed

lemma setSlice_decoders:
  assumes "val st d = Some (TSlice e, VSlice old)" and "CanSet st d"
    and "exposesDecoder e" and "Kind e = KPtr \<longrightarrow> Implements e"
    and "\<forall>s \<in> set parts. snd (xParseValue X e True (zero e) s) = None"
  shows "setSlice X st d parts =
     (None, setCell st d (TSlice e,
        replaced old (map (\<lambda>s. fst (xParseValue X e True (zero e) s)) parts)))"
proof -
  have c: "converted X False e = (\<lambda>s. fst (xParseValue X e True (zero e) s))"
    by (rule ext) (simp add: converted_def)
  show ?thesis
    using setSlice_replaces[OF assms(1,2) sliceTarget_decoder[OF assms(3,4)] assms(5)]
    by (simp add: c)
qed

text \<open>
  Claim C8, as amended. In a constructed schema a slot whose type exposes the custom
  textual-decode capability, itself or through its pointer, is neither boolean nor
  multi-value, whatever the underlying shape of the type, so a boolean or multi-value slot
  has a type without the capability. A field of such a type that is neither excluded nor
  an embedded field of struct kind, and whose annotation is accepted, becomes one such
  slot, and binding a slot that is not multi-value hands the converter the raw
  environment value, whole, at the field's type. A slice field whose elements expose the
  capability becomes a multi-value slot, and \<open>setSlice\<close> converts each part at the
  element's own type, without looking through a pointer that has the capability. An
  embedded field of struct kind is not a slot: it is expanded into its fields, also when
  its type exposes the capability.
\<close>

theorem decoder_slot:
  "(NewParser X dests st = Inr specs \<and> sp \<in> set specs \<and> exposesDecoder (sp_typ sp) \<longrightarrow>
      \<not> boolean sp \<and> \<not> multiple sp \<and> sp_typ sp = Type (last (pfields (dest sp)))) \<and>
   (tag_env (Tag f) \<noteq> ''-'' \<and> \<not> (Anonymous f \<and> Kind (Type f) = KStruct) \<and>
    exposesDecoder (Type f) \<and> lookAtTag (tag_env (Tag f)) (newSpec dst f) = Inr sp2 \<longrightarrow>
      walker dst f tn = (Some (sp2\<lparr>boolean := False, multiple := False\<rparr>), False, None)) \<and>
   (tag_env (Tag f) \<noteq> ''-'' \<and> Anonymous f \<and> Kind (Type f) = KStruct \<longrightarrow>
      walker dst f tn = (None, True, None)) \<and>
   (\<not> multiple sp1 \<and> env (name sp1) = Some raw \<and> val st1 (dest sp1) = Some (t, v) \<longrightarrow>
      captureEnvVar X env sp1 st1 =
        (map_option (\<lambda>m. Wrap (''error processing environment variable '' @ name sp1 @ '': '') (External m))
           (snd (xParseValue X t (CanSet st1 (dest sp1)) v raw)),
         setCell st1 (dest sp1) (t, fst (xParseValue X t (CanSet st1 (dest sp1)) v raw)),
         snd (xParseValue X t (CanSet st1 (dest sp1)) v raw) = None)) \<and>
   (tag_env (Tag g) \<noteq> ''-'' \<and> Type g = TSlice e \<and> exposesDecoder e \<and>
    tag_default (Tag g) = None \<and> lookAtTag (tag_env (Tag g)) (newSpec dst g) = Inr sp3 \<longrightarrow>
      walker dst g tn = (Some (sp3\<lparr>boolean := False, multiple := True\<rparr>), False, None)) \<and>
   (val st2 d = Some (TSlice e, VSlice old) \<and> CanSet st2 d \<and> exposesDecoder e \<and>
    (Kind e = KPtr \<longrightarrow> Implements e) \<and>
    (\<forall>s \<in> set parts. snd (xParseValue X e True (zero e) s) = None) \<longrightarrow>
      setSlice X st2 d parts =
        (None, setCell st2 d (TSlice e,
           replaced old (map (\<lambda>s. fst (xParseValue X e True (zero e) s)) parts))))"
  (is "?c1 \<and> ?c2 \<and> ?c3 \<and> ?c4 \<and> ?c5 \<and> ?c6")
proof -
  have c1: ?c1 using NewParser_decoder_slot[of X dests st specs sp] by blast
  have c2: ?c2 using walker_decoder[of f dst sp2 tn] by blast
  have c3: ?c3 using walker_embedded[of f dst tn] by blast
  have c4: ?c4 using captureEnvVar_scalar[of sp1 env raw st1 t v X] by blast
  have c5: ?c5 using walker_slice_of_decoders[of g e dst sp3 tn] by blast
  have c6: ?c6 using setSlice_decoders[of st2 d e old parts X] by blast
  show ?thesis
    by (rule conjI[OF c1 conjI[OF c2 conjI[OF c3 conjI[OF c4 conjI[OF c5 c6]]]]])
qed

text \<open>
  \<open>struct { Decoder }\<close> embeds the struct type \<open>Decoder\<close>, which has \<open>UnmarshalText\<close>:
  the schema has a slot for the embedded struct's field \<open>Val\<close> and none for the embedded
  field, and \<open>val=7\<close> is converted as an integer while \<open>decoder=abc\<close> is not looked at.
\<close>

theorem embedded_decoder_counterexample:
  "exposesDecoder (Type embeddedDecoder) \<and>
   walker \<lparr>root = 0, pfields = []\<rparr> embeddedDecoder [] = (None, True, None) \<and>
   NewParser refX [TPtr (TStruct [] [embeddedDecoder])] embeddedStore
     = Inr [mkSpec embeddedVal ''val'' [] False False False False] \<and>
   cells (snd (process refX [''decoder'' \<mapsto> ''abc'', ''val'' \<mapsto> ''7'']
                 [mkSpec embeddedVal ''val'' [] False False False False] embeddedStore)) (0, [0, 0])
     = (TInt, VInt 7)"
  by code_simp

theorem decoder_slot_witness:
  "NewParser refX [TPtr (TStruct [] [fooCustom])] fooCustomStore
     = Inr [mkSpec fooCustom ''foo'' [] False False False False] \<and>
   exposesDecoder (sp_typ (mkSpec fooCustom ''foo'' [] False False False False)) \<and>
   Kind sliceUnmarshaler = KSlice \<and>
   boolean (mkSpec fooCustom ''foo'' [] False False False False) = False \<and>
   multiple (mkSpec fooCustom ''foo'' [] False False False False) = False \<and>
   captureEnvVar refX [''foo'' \<mapsto> ''abcde''] (mkSpec fooCustom ''foo'' [] False False False False)
       fooCustomStore
     = (None,
        setCell fooCustomStore \<lparr>root = 0, pfields = [fooCustom]\<rparr>
          (TPtr sliceUnmarshaler, VPtr (Some (VSlice (Some [VInt 5])))),
        True) \<and>
   walker \<lparr>root = 0, pfields = []\<rparr> fooDecoders []
     = (Some (mkSpec fooDecoders ''foo'' [] True False False False), False, None) \<and>
   setSlice refX fooDecodersStore \<lparr>root = 0, pfields = [fooDecoders]\<rparr> [''abc'', ''d'', ''ef'']
     = (None,
        setCell fooDecodersStore \<lparr>root = 0, pfields = [fooDecoders]\<rparr>
          (TSlice Decoder, VSlice (Some [VStruct [VInt 3], VStruct [VInt 1], VStruct [VInt 2]])))"
proof -
  let ?s = "mkSpec fooCustom ''foo'' [] False False False False"
  let ?env = "[''foo'' \<mapsto> ''abcde'']"
  let ?d = "\<lparr>root = 0, pfields = [fooDecoders]\<rparr>"
  let ?r = "\<lparr>root = 0, pfields = []\<rparr>"
  let ?parts = "[''abc'', ''d'', ''ef'']"
  have n: "NewParser refX [TPtr (TStruct [] [fooCustom])] fooCustomStore = Inr [?s]"
    by code_simp
  have m: "?s \<in> set [?s]" by simp
  have x: "exposesDecoder (sp_typ ?s)" by code_simp
  have k: "Kind sliceUnmarshaler = KSlice" by code_simp
  have nm: "\<not> multiple ?s" by (simp add: mkSpec_def)
  have en: "?env (name ?s) = Some ''abcde''" by (simp add: mkSpec_def)
  have ds: "dest ?s = \<lparr>root = 0, pfields = [fooCustom]\<rparr>" by (simp add: mkSpec_def)
  have na: "name ?s = ''foo''" by (simp add: mkSpec_def)
  have v1: "val fooCustomStore (dest ?s) = Some (TPtr sliceUnmarshaler, VPtr None)"
    by code_simp
  have p1: "xParseValue refX (TPtr sliceUnmarshaler)
              (CanSet fooCustomStore \<lparr>root = 0, pfields = [fooCustom]\<rparr>)
              (VPtr None) ''abcde'' = (VPtr (Some (VSlice (Some [VInt 5]))), None)"
    by code_simp
  have g1: "tag_env (Tag fooDecoders) \<noteq> ''-''" by code_simp
  have g2: "Type fooDecoders = TSlice Decoder" by code_simp
  have g3: "exposesDecoder Decoder" by code_simp
  have g4: "tag_default (Tag fooDecoders) = None" by code_simp
  have g5: "lookAtTag (tag_env (Tag fooDecoders)) (newSpec ?r fooDecoders)
              = Inr (mkSpec fooDecoders ''foo'' [] False False False False)"
    by code_simp
  have g6: "(mkSpec fooDecoders ''foo'' [] False False False False)
              \<lparr>boolean := False, multiple := True\<rparr>
            = mkSpec fooDecoders ''foo'' [] True False False False"
    by (simp add: mkSpec_def)
  have s1: "val fooDecodersStore ?d = Some (TSlice Decoder, VSlice None)" by code_simp
  have s2: "CanSet fooDecodersStore ?d" by code_simp
  have s3: "Kind Decoder = KPtr \<longrightarrow> Implements Decoder" by code_simp
  have s4: "\<forall>s \<in> set ?parts. snd (xParseValue refX Decoder True (zero Decoder) s) = None"
    by code_simp
  have s5: "replaced None (map (\<lambda>s. fst (xParseValue refX Decoder True (zero Decoder) s)) ?parts)
              = VSlice (Some [VStruct [VInt 3], VStruct [VInt 1], VStruct [VInt 2]])"
    by code_simp
  note th = decoder_slot[where X = refX and dests = "[TPtr (TStruct [] [fooCustom])]"
      and st = fooCustomStore and specs = "[?s]" and sp = "?s"
      and ?sp1.0 = "?s" and env = "?env" and raw = "''abcde''" and ?st1.0 = fooCustomStore
      and t = "TPtr sliceUnmarshaler" and v = "VPtr None"
      and g = fooDecoders and e = Decoder and dst = "?r" and tn = "[]"
      and ?sp3.0 = "mkSpec fooDecoders ''foo'' [] False False False False"
      and ?st2.0 = fooDecodersStore and d = "?d" and old = None and parts = "?parts"]
  from th n m x have a: "\<not> boolean ?s \<and> \<not> multiple ?s" by blast
  from th nm en v1 have b: "captureEnvVar refX ?env ?s fooCustomStore =
        (map_option (\<lambda>m. Wrap (''error processing environment variable '' @ name ?s @ '': '') (External m))
           (snd (xParseValue refX (TPtr sliceUnmarshaler) (CanSet fooCustomStore (dest ?s)) (VPtr None) ''abcde'')),
         setCell fooCustomStore (dest ?s) (TPtr sliceUnmarshaler,
           fst (xParseValue refX (TPtr sliceUnmarshaler) (CanSet fooCustomStore (dest ?s)) (VPtr None) ''abcde'')),
         snd (xParseValue refX (TPtr sliceUnmarshaler) (CanSet fooCustomStore (dest ?s)) (VPtr None) ''abcde'') = None)"
    by blast
  have b': "captureEnvVar refX ?env ?s fooCustomStore
     = (None,
        setCell fooCustomStore \<lparr>root = 0, pfields = [fooCustom]\<rparr>
          (TPtr sliceUnmarshaler, VPtr (Some (VSlice (Some [VInt 5])))),
        True)"
    unfolding b ds p1 by simp
  from th g1 g2 g3 g4 g5 have c: "walker ?r fooDecoders []
      = (Some ((mkSpec fooDecoders ''foo'' [] False False False False)
                 \<lparr>boolean := False, multiple := True\<rparr>), False, None)"
    by blast
  from th s1 s2 g3 s3 s4 have e: "setSlice refX fooDecodersStore ?d ?parts =
        (None, setCell fooDecodersStore ?d (TSlice Decoder,
           replaced None (map (\<lambda>s. fst (xParseValue refX Decoder True (zero Decoder) s)) ?parts)))"
    by blast
  from n x k a b' c[unfolded g6] e[unfolded s5] show ?thesis by simp
qed

end
